theory Spec2Isabelle
  imports Main "HOL-Library.Word"
begin

unbundle bit_operations_syntax

section \<open>Wire format (pkg/storage/types.go)\<close>

type_synonym byte = "8 word"
type_synonym uint32 = "32 word"
type_synonym uint64 = "64 word"

text \<open>
  A \<open>float32\<close> is carried as its IEEE-754 bit pattern. \<open>math.Float32bits\<close> and
  \<open>math.Float32frombits\<close> are bit casts, hence the identity on this representation, and
  equality of two modelled floats is bitwise equality.
\<close>

type_synonym float32 = "32 word"

text \<open>The constants of types.go. \<open>MagicBytes\<close> is the string \<open>EDB\\x00\<close>.\<close>

definition MagicBytes :: "byte list" where
  "MagicBytes = [0x45, 0x44, 0x42, 0x00]"

abbreviation CurrentVersion :: uint32 where "CurrentVersion \<equiv> 2"
abbreviation HeaderSize :: int where "HeaderSize \<equiv> 256"
abbreviation RecordMetaSize :: int where "RecordMetaSize \<equiv> 16"
abbreviation IndexEntrySize :: int where "IndexEntrySize \<equiv> 16"

text \<open>
  Go's slice expression \<open>s[lo:hi]\<close> on a slice whose capacity is its length: it panics
  unless \<open>0 \<le> lo \<le> hi \<le> len(s)\<close>; \<open>None\<close> is the panic.
\<close>

definition subslice :: "'a list \<Rightarrow> int \<Rightarrow> int \<Rightarrow> 'a list option" where
  "subslice s lo hi =
     (if 0 \<le> lo \<and> lo \<le> hi \<and> hi \<le> int (length s)
      then Some (take (nat (hi - lo)) (drop (nat lo) s))
      else None)"

text \<open>\<open>binary.LittleEndian\<close>: the four readers and writers the store uses.\<close>

definition PutUint32 :: "uint32 \<Rightarrow> byte list" where
  "PutUint32 v = [ucast v, ucast (drop_bit 8 v), ucast (drop_bit 16 v), ucast (drop_bit 24 v)]"

definition Uint32 :: "byte list \<Rightarrow> uint32" where
  "Uint32 b = ucast (b ! 0) OR push_bit 8 (ucast (b ! 1)) OR push_bit 16 (ucast (b ! 2))
     OR push_bit 24 (ucast (b ! 3))"

definition PutUint64 :: "uint64 \<Rightarrow> byte list" where
  "PutUint64 v = [ucast v, ucast (drop_bit 8 v), ucast (drop_bit 16 v), ucast (drop_bit 24 v),
     ucast (drop_bit 32 v), ucast (drop_bit 40 v), ucast (drop_bit 48 v), ucast (drop_bit 56 v)]"

definition Uint64 :: "byte list \<Rightarrow> uint64" where
  "Uint64 b = ucast (b ! 0) OR push_bit 8 (ucast (b ! 1)) OR push_bit 16 (ucast (b ! 2))
     OR push_bit 24 (ucast (b ! 3)) OR push_bit 32 (ucast (b ! 4)) OR push_bit 40 (ucast (b ! 5))
     OR push_bit 48 (ucast (b ! 6)) OR push_bit 56 (ucast (b ! 7))"

text \<open>
  \<open>HashText\<close>: 64-bit FNV-1a (\<open>hash/fnv.New64a\<close>) over the bytes of the key, with the
  offset basis 14695981039346656037 and the prime 1099511628211. A Go string is a byte
  sequence, as an Isabelle \<open>string\<close> is.
\<close>

definition HashText :: "string \<Rightarrow> uint64" where
  "HashText text =
     fold (\<lambda>c h. (h XOR ucast (of_char c :: byte)) * 1099511628211) text 14695981039346656037"

record Header =
  Magic :: "byte list"
  Version :: uint32
  Dimension :: uint32
  RecordCount :: uint64
  IndexOffset :: uint64
  DataOffset :: uint64
  Reserved :: "byte list"

text \<open>An \<open>int64\<close> offset is an \<open>int\<close>; the casts to and from \<open>uint64\<close> are written out.\<close>

record IndexEntry =
  Hash :: uint64
  Offset :: int

text \<open>
  \<open>Encode\<close> fills a zeroed buffer of 256 bytes: \<open>copy\<close> moves the four magic bytes, the
  five integers follow, and the bytes from 36 on stay zero (\<open>Reserved\<close> is never written).
\<close>

definition Encode :: "Header \<Rightarrow> byte list" where
  "Encode h = take 4 (Magic h @ replicate 4 0) @ PutUint32 (Version h) @ PutUint32 (Dimension h)
     @ PutUint64 (RecordCount h) @ PutUint64 (IndexOffset h) @ PutUint64 (DataOffset h)
     @ replicate 220 0"

definition DecodeHeader :: "byte list \<Rightarrow> Header" where
  "DecodeHeader buf = \<lparr>Magic = take 4 buf,
     Version = Uint32 (take 4 (drop 4 buf)),
     Dimension = Uint32 (take 4 (drop 8 buf)),
     RecordCount = Uint64 (take 8 (drop 12 buf)),
     IndexOffset = Uint64 (take 8 (drop 20 buf)),
     DataOffset = Uint64 (take 8 (drop 28 buf)),
     Reserved = replicate 216 0\<rparr>"

definition NewHeader :: "uint32 \<Rightarrow> Header" where
  "NewHeader dimension = \<lparr>Magic = MagicBytes, Version = CurrentVersion, Dimension = dimension,
     RecordCount = 0, IndexOffset = 0, DataOffset = word_of_int HeaderSize,
     Reserved = replicate 216 0\<rparr>"

definition EncodeIndexEntry :: "IndexEntry \<Rightarrow> byte list" where
  "EncodeIndexEntry entry = PutUint64 (Hash entry) @ PutUint64 (word_of_int (Offset entry))"

definition DecodeIndexEntry :: "byte list \<Rightarrow> IndexEntry" where
  "DecodeIndexEntry buf = \<lparr>Hash = Uint64 (take 8 buf), Offset = sint (Uint64 (take 8 (drop 8 buf)))\<rparr>"

section \<open>The LRU cache of hot vectors\<close>

text \<open>
  A \<open>[]float32\<close> is a reference to an array. The arrays live in a heap, a list of arrays
  addressed by position; \<open>make\<close> appends a new array, and a slice value is its address.
\<close>

type_synonym sliceref = nat
type_synonym heap = "float32 list list"

definition make_slice :: "float32 list \<Rightarrow> heap \<Rightarrow> sliceref \<times> heap" where
  "make_slice v hp = (length hp, hp @ [v])"

text \<open>
  \<open>LRUCache\<close>: \<open>lru\<close> is the list of entries, front first. The field \<open>cache\<close>, the map from
  a hash to its list element, is the lookup structure over that list and always holds
  exactly the hashes of its entries; the model looks a hash up in the list. The mutex
  is not modelled: every operation runs under the exclusive lock.
\<close>

record LRUCache =
  capacity :: int
  lru :: "(uint64 \<times> sliceref) list"

definition NewLRUCache :: "int \<Rightarrow> LRUCache" where
  "NewLRUCache cap = \<lparr>capacity = cap, lru = []\<rparr>"

definition LRUCache_Get :: "uint64 \<Rightarrow> LRUCache \<Rightarrow> sliceref option \<times> LRUCache" where
  "LRUCache_Get hash c =
     (case map_of (lru c) hash of
        Some vector \<Rightarrow> (Some vector, c\<lparr>lru := (hash, vector) # remove1 (hash, vector) (lru c)\<rparr>)
      | None \<Rightarrow> (None, c))"

definition evict :: "LRUCache \<Rightarrow> LRUCache" where
  "evict c = (if lru c = [] then c else c\<lparr>lru := butlast (lru c)\<rparr>)"

definition LRUCache_Put :: "uint64 \<Rightarrow> sliceref \<Rightarrow> LRUCache \<Rightarrow> LRUCache" where
  "LRUCache_Put hash vector c =
     (case map_of (lru c) hash of
        Some old \<Rightarrow> c\<lparr>lru := (hash, vector) # remove1 (hash, old) (lru c)\<rparr>
      | None \<Rightarrow>
          (let c1 = c\<lparr>lru := (hash, vector) # lru c\<rparr>
           in if int (length (lru c1)) > capacity c1 then evict c1 else c1))"

definition LRUCache_Len :: "LRUCache \<Rightarrow> int" where
  "LRUCache_Len c = int (length (lru c))"

section \<open>Files and errors\<close>

text \<open>
  The three errors of db.go, the error of an operation on a closed \<open>os.File\<close>
  (\<open>os.ErrClosed\<close>), any other error of the operating system, and a run-time panic or
  fault, which ends the process.
\<close>

datatype error = ErrNotFound | ErrInvalidFormat | ErrDimensionMismatch
  | ErrFileClosed | ErrIO | Panic

text \<open>An \<open>os.File\<close>: the bytes of the file and whether the descriptor is still open.\<close>

record osfile =
  contents :: "byte list"
  is_open :: bool

text \<open>
  A positional write: a gap between the end of the file and the offset reads as zeros.
  No file grows beyond \<open>2^63 - 1\<close> bytes: the operating system refuses the write.
\<close>

definition pwrite :: "byte list \<Rightarrow> nat \<Rightarrow> byte list \<Rightarrow> byte list" where
  "pwrite old off buf =
     take off (old @ replicate (off - length old) 0) @ buf @ drop (off + length buf) old"

definition WriteAt :: "osfile \<Rightarrow> byte list \<Rightarrow> int \<Rightarrow> error + osfile" where
  "WriteAt f b off =
     (if off < 0 then Inl ErrIO
      else if b = [] then Inr f
      else if \<not> is_open f then Inl ErrFileClosed
      else if off + int (length b) \<ge> 2 ^ 63 then Inl ErrIO
      else Inr (f\<lparr>contents := pwrite (contents f) (nat off) b\<rparr>))"

definition Truncate :: "osfile \<Rightarrow> int \<Rightarrow> error + osfile" where
  "Truncate f sz =
     (if \<not> is_open f then Inl ErrFileClosed
      else if sz < 0 \<or> sz \<ge> 2 ^ 63 then Inl ErrIO
      else Inr (f\<lparr>contents :=
             take (nat sz) (contents f @ replicate (nat sz - length (contents f)) 0)\<rparr>))"

definition Stat_Size :: "osfile \<Rightarrow> error + int" where
  "Stat_Size f = (if \<not> is_open f then Inl ErrFileClosed else Inr (int (length (contents f))))"

definition file_Close :: "osfile \<Rightarrow> error + osfile" where
  "file_Close f = (if \<not> is_open f then Inl ErrFileClosed else Inr (f\<lparr>is_open := False\<rparr>))"

section \<open>The store engine (pkg/storage/db.go)\<close>

text \<open>
  The field \<open>mmap\<close>: nil, a shared mapping of the first \<open>n\<close> bytes of the file
  (\<open>MAP_SHARED\<close>: a read sees the file's bytes), or a slice left behind by \<open>Munmap\<close>,
  whose pages are gone.
\<close>

datatype mmap_state = NoMap | Mapped nat | Stale nat

text \<open>
  \<open>DB\<close> without \<open>path\<close> and the lock \<open>mu\<close>: operations run one at a time. The index is
  the Go map from hash to offset.
\<close>

record DB =
  dbfile :: osfile
  mmap :: mmap_state
  header :: Header
  index :: "uint64 \<rightharpoonup> int"
  cache :: LRUCache
  dimension :: uint32
  dataEndOffset :: int

record OpenOptions =
  LazyLoad :: bool
  CacheSize :: int

text \<open>
  The struct literal of \<open>OpenWithOptions\<close>. The pointers \<open>file\<close> (here \<open>dbfile\<close>) and
  \<open>header\<close> are nil in it, and \<open>create\<close> or \<open>open\<close> sets both before anything reads them;
  the model puts a closed empty file and a zero header there.
\<close>

definition newDB :: "uint32 \<Rightarrow> int \<Rightarrow> DB" where
  "newDB dim cacheSize = \<lparr>dbfile = \<lparr>contents = [], is_open = False\<rparr>, mmap = NoMap,
     header = \<lparr>Magic = replicate 4 0, Version = 0, Dimension = 0, RecordCount = 0,
       IndexOffset = 0, DataOffset = 0, Reserved = replicate 216 0\<rparr>,
     index = Map.empty, cache = NewLRUCache cacheSize, dimension = dim, dataEndOffset = 0\<rparr>"

definition create :: "DB \<Rightarrow> error + DB" where
  "create db =
     (let hdr = NewHeader (dimension db)
      in Inr (db\<lparr>dbfile := \<lparr>contents = Encode hdr, is_open = True\<rparr>, header := hdr,
                dataEndOffset := HeaderSize\<rparr>))"

text \<open>The bytes \<open>db.mmap\<close> shows: the mapped prefix of the file.\<close>

definition mmap_bytes :: "DB \<Rightarrow> byte list" where
  "mmap_bytes db = (case mmap db of Mapped n \<Rightarrow> take n (contents (dbfile db)) | _ \<Rightarrow> [])"

text \<open>
  \<open>remap\<close>. \<open>syscall.Munmap\<close> of a slice that is no longer mapped fails with EINVAL.
\<close>

definition remap :: "DB \<Rightarrow> (error + unit) \<times> DB" where
  "remap db =
     (case mmap db of
        Stale n \<Rightarrow> (Inl ErrIO, db)
      | _ \<Rightarrow>
        (let db1 = (case mmap db of Mapped n \<Rightarrow> db\<lparr>mmap := Stale n\<rparr> | _ \<Rightarrow> db)
         in case Stat_Size (dbfile db1) of
              Inl e \<Rightarrow> (Inl e, db1)
            | Inr sz \<Rightarrow>
                if sz \<le> HeaderSize then (Inr (), db1\<lparr>mmap := NoMap\<rparr>)
                else (Inr (), db1\<lparr>mmap := Mapped (nat sz)\<rparr>)))"

text \<open>The record \<open>Insert\<close> serialises: hash, dimension, four zero bytes, the float bits.\<close>

definition record_bytes :: "uint64 \<Rightarrow> float32 list \<Rightarrow> byte list" where
  "record_bytes hash vector =
     PutUint64 hash @ PutUint32 (word_of_nat (length vector)) @ replicate 4 0
       @ concat (map PutUint32 vector)"

definition Insert :: "string \<Rightarrow> float32 list \<Rightarrow> DB \<Rightarrow> (error + unit) \<times> DB" where
  "Insert text vector db =
     (if int (length vector) \<noteq> uint (dimension db) then (Inl ErrDimensionMismatch, db)
      else
        let hash = HashText text in
        if index db hash \<noteq> None then (Inr (), db)
        else
          let recordSize = RecordMetaSize + int (length vector) * 4;
              buf = record_bytes hash vector;
              offset = dataEndOffset db
          in case WriteAt (dbfile db) buf offset of
               Inl e \<Rightarrow> (Inl e, db)
             | Inr f \<Rightarrow>
                 remap (db\<lparr>dbfile := f,
                           index := (index db)(hash \<mapsto> offset),
                           header := (header db)\<lparr>RecordCount := RecordCount (header db) + 1\<rparr>,
                           dataEndOffset := offset + recordSize\<rparr>))"

text \<open>
  \<open>readVector\<close>. A read through a stale mapping faults; a slice expression out of the
  mapping's range panics. The loop reads \<open>dim\<close> floats, the \<open>i\<close>-th from the four bytes
  at \<open>vectorOffset + 4 * i\<close>; the vector is a new array.
\<close>

definition read_floats :: "byte list \<Rightarrow> int \<Rightarrow> nat \<Rightarrow> float32 list option" where
  "read_floats m vectorOffset dim =
     those (map (\<lambda>i. map_option Uint32 (subslice m (vectorOffset + int i * 4) (vectorOffset + int i * 4 + 4)))
                [0..<dim])"

definition readVector :: "DB \<Rightarrow> int \<Rightarrow> heap \<Rightarrow> (error + sliceref) \<times> heap" where
  "readVector db offset hp =
     (case mmap db of
        NoMap \<Rightarrow> (Inl ErrNotFound, hp)
      | Stale n \<Rightarrow> (Inl Panic, hp)
      | Mapped n \<Rightarrow>
          (case subslice (mmap_bytes db) (offset + 8) (offset + 12) of
             None \<Rightarrow> (Inl Panic, hp)
           | Some b \<Rightarrow>
               (case read_floats (mmap_bytes db) (offset + RecordMetaSize) (unat (Uint32 b)) of
                  None \<Rightarrow> (Inl Panic, hp)
                | Some vector \<Rightarrow> (case make_slice vector hp of (a, hp') \<Rightarrow> (Inr a, hp')))))"

definition Get :: "string \<Rightarrow> DB \<times> heap \<Rightarrow> (error + sliceref) \<times> DB \<times> heap" where
  "Get text s =
     (let db = fst s; hp = snd s; hash = HashText text
      in (case LRUCache_Get hash (cache db) of
            (Some cached, c) \<Rightarrow> (Inr cached, db\<lparr>cache := c\<rparr>, hp)
          | (None, c) \<Rightarrow>
              (case index db hash of
                 None \<Rightarrow> (Inl ErrNotFound, db, hp)
               | Some offset \<Rightarrow>
                   (case readVector db offset hp of
                      (Inl e, hp1) \<Rightarrow> (Inl e, db, hp1)
                    | (Inr vector, hp1) \<Rightarrow>
                        (Inr vector, db\<lparr>cache := LRUCache_Put hash vector (cache db)\<rparr>, hp1)))))"

text \<open>
  \<open>int64\<close> arithmetic wraps; Go's integer division truncates towards zero.
\<close>

definition int64 :: "int \<Rightarrow> int" where
  "int64 x = sint (word_of_int x :: 64 word)"

definition quot :: "int \<Rightarrow> int \<Rightarrow> int" where
  "quot a b = sgn a * sgn b * (\<bar>a\<bar> div \<bar>b\<bar>)"

text \<open>
  The loop of \<open>buildIndexFromSection\<close>, from entry \<open>i\<close> on. The slice expression panics on
  a negative offset.
\<close>

function section_loop :: "byte list \<Rightarrow> int \<Rightarrow> int \<Rightarrow> int \<Rightarrow> (uint64 \<rightharpoonup> int) \<Rightarrow> error + (uint64 \<rightharpoonup> int)" where
  "section_loop m indexOffset numEntries i idx =
     (if i < numEntries then
        (let offset = int64 (indexOffset + int64 (i * IndexEntrySize))
         in if int64 (offset + IndexEntrySize) > int (length m) then Inr idx
            else (case subslice m offset (offset + IndexEntrySize) of
                    None \<Rightarrow> Inl Panic
                  | Some b \<Rightarrow>
                      (let entry = DecodeIndexEntry b
                       in section_loop m indexOffset numEntries (i + 1)
                            (idx(Hash entry \<mapsto> Offset entry)))))
      else Inr idx)"
  by pat_completeness auto
termination
  by (relation "measure (\<lambda>(m, indexOffset, numEntries, i, idx). nat (numEntries - i))") auto

definition buildIndexFromSection :: "DB \<Rightarrow> error + DB" where
  "buildIndexFromSection db =
     (let indexOffset = sint (IndexOffset (header db));
          fileSize = int (length (mmap_bytes db));
          indexSize = int64 (fileSize - indexOffset);
          numEntries = quot indexSize IndexEntrySize
      in if numEntries = 0 then Inr db
         else (case section_loop (mmap_bytes db) indexOffset numEntries 0 (index db) of
                 Inl e \<Rightarrow> Inl e
               | Inr idx \<Rightarrow> Inr (db\<lparr>index := idx\<rparr>)))"

text \<open>
  The loop of \<open>buildIndexLegacy\<close>, from \<open>offset\<close> on. \<open>int64(dim) * 4\<close> is below \<open>2^34\<close>.
\<close>

function legacy_loop :: "byte list \<Rightarrow> int \<Rightarrow> (uint64 \<rightharpoonup> int) \<Rightarrow> error + (uint64 \<rightharpoonup> int)" where
  "legacy_loop m offset idx =
     (if offset < int (length m) then
        (if offset + RecordMetaSize > int (length m) then Inr idx
         else (case (subslice m offset (offset + 8), subslice m (offset + 8) (offset + 12)) of
                 (Some hb, Some db) \<Rightarrow>
                   (let hash = Uint64 hb;
                        dim = Uint32 db;
                        recordSize = RecordMetaSize + uint dim * 4
                    in legacy_loop m (offset + recordSize) (idx(hash \<mapsto> offset)))
               | _ \<Rightarrow> Inl Panic))
      else Inr idx)"
  by pat_completeness auto
termination
proof (relation "measure (\<lambda>(m, offset, idx). nat (int (length m) - offset))")
  show "wf (measure (\<lambda>(m, offset, idx). nat (int (length m) - offset)))"
    by simp
next
  fix m :: "byte list" and offset :: int and idx :: "uint64 \<rightharpoonup> int"
    and x xa y xb and xc :: uint32 and xd
  assume "offset < int (length m)" and "xd = RecordMetaSize + uint xc * 4"
  moreover have "- 4 < uint xc"
    using uint_ge_0 [of xc] by linarith
  ultimately show "((m, offset + xd, idx(xb \<mapsto> offset)), m, offset, idx)
      \<in> measure (\<lambda>(m, offset, idx). nat (int (length m) - offset))"
    by simp
qed

definition buildIndexLegacy :: "DB \<Rightarrow> error + DB" where
  "buildIndexLegacy db =
     (case legacy_loop (mmap_bytes db) HeaderSize (index db) of
        Inl e \<Rightarrow> Inl e
      | Inr idx \<Rightarrow> Inr (db\<lparr>index := idx\<rparr>))"

definition buildIndex :: "DB \<Rightarrow> error + DB" where
  "buildIndex db =
     (if Version (header db) \<ge> 2 \<and> IndexOffset (header db) > 0 then buildIndexFromSection db
      else buildIndexLegacy db)"

text \<open>
  \<open>open\<close> on the bytes of the existing file. \<open>ReadAt\<close> of 256 bytes fails on a shorter
  file. \<open>buildIndex\<close> returns no error, so the branch that closes the engine is dead; a
  panic ends the process.
\<close>

definition open_db :: "DB \<Rightarrow> byte list \<Rightarrow> error + DB" where
  "open_db db bytes =
     (if length bytes < 256 then Inl ErrIO
      else
        let hdr = DecodeHeader (take 256 bytes) in
        if Magic hdr \<noteq> MagicBytes then Inl ErrInvalidFormat
        else if Dimension hdr \<noteq> dimension db then Inl ErrDimensionMismatch
        else
          let db1 = db\<lparr>dbfile := \<lparr>contents = bytes, is_open = True\<rparr>, header := hdr\<rparr>;
              sz = int (length bytes)
          in if sz > HeaderSize then
               (case buildIndex (db1\<lparr>mmap := Mapped (length bytes)\<rparr>) of
                  Inl e \<Rightarrow> Inl e
                | Inr db2 \<Rightarrow>
                    Inr (db2\<lparr>dataEndOffset :=
                           (if Version (header db2) \<ge> 2 \<and> IndexOffset (header db2) > 0
                            then sint (IndexOffset (header db2)) else sz)\<rparr>))
             else Inr (db1\<lparr>dataEndOffset := HeaderSize\<rparr>))"

text \<open>
  \<open>OpenWithOptions\<close>: the first argument is the content of the file at the path, \<open>None\<close>
  when no file is there.
\<close>

definition OpenWithOptions :: "byte list option \<Rightarrow> uint32 \<Rightarrow> OpenOptions \<Rightarrow> error + DB" where
  "OpenWithOptions path dim opts =
     (let cacheSize = (if CacheSize opts = 0 then 100 else CacheSize opts);
          db = newDB dim cacheSize
      in case path of None \<Rightarrow> create db | Some bytes \<Rightarrow> open_db db bytes)"

definition Open :: "byte list option \<Rightarrow> uint32 \<Rightarrow> error + DB" where
  "Open path dim = OpenWithOptions path dim \<lparr>LazyLoad = True, CacheSize = 100\<rparr>"

text \<open>
  A \<open>range\<close> over the index yields every entry of the map once, in an order the language
  leaves open. The operations that range over it take that order as an argument.
\<close>

definition range_order :: "(uint64 \<rightharpoonup> int) \<Rightarrow> (uint64 \<times> int) list \<Rightarrow> bool" where
  "range_order m entries \<longleftrightarrow> distinct (map fst entries) \<and> map_of entries = m"

text \<open>\<open>writeIndexSection\<close>: the loop that writes the entries, the truncation, the header field.\<close>

fun write_entries :: "osfile \<Rightarrow> int \<Rightarrow> IndexEntry list \<Rightarrow> (error + int) \<times> osfile" where
  "write_entries f currentOffset [] = (Inr currentOffset, f)"
| "write_entries f currentOffset (entry # entries) =
     (case WriteAt f (EncodeIndexEntry entry) currentOffset of
        Inl e \<Rightarrow> (Inl e, f)
      | Inr f1 \<Rightarrow> write_entries f1 (currentOffset + IndexEntrySize) entries)"

definition writeIndexSection :: "(uint64 \<times> int) list \<Rightarrow> DB \<Rightarrow> (error + unit) \<times> DB" where
  "writeIndexSection order db =
     (let indexOffset = dataEndOffset db;
          entries = map (\<lambda>(hash, offset). \<lparr>Hash = hash, Offset = offset\<rparr>) order
      in case write_entries (dbfile db) indexOffset entries of
           (Inl e, f) \<Rightarrow> (Inl e, db\<lparr>dbfile := f\<rparr>)
         | (Inr currentOffset, f) \<Rightarrow>
             (case Truncate f currentOffset of
                Inl e \<Rightarrow> (Inl e, db\<lparr>dbfile := f\<rparr>)
              | Inr f1 \<Rightarrow>
                  (Inr (), db\<lparr>dbfile := f1,
                       header := (header db)\<lparr>IndexOffset := word_of_int indexOffset\<rparr>\<rparr>)))"

text \<open>\<open>Close\<close>. \<open>Munmap\<close> leaves the slice in \<open>db.mmap\<close> behind, unmapped.\<close>

definition Close :: "(uint64 \<times> int) list \<Rightarrow> DB \<Rightarrow> (error + unit) \<times> DB" where
  "Close order db =
     (case (if index db \<noteq> Map.empty \<and> Version (header db) \<ge> 2
            then writeIndexSection order db else (Inr (), db)) of
        (Inl e, db1) \<Rightarrow> (Inl e, db1)
      | (Inr u, db1) \<Rightarrow>
          (case WriteAt (dbfile db1) (Encode (header db1)) 0 of
             Inl e \<Rightarrow> (Inl e, db1)
           | Inr f \<Rightarrow>
               (case mmap db1 of
                  Stale n \<Rightarrow> (Inl ErrIO, db1\<lparr>dbfile := f\<rparr>)
                | _ \<Rightarrow>
                    (let m = (case mmap db1 of Mapped n \<Rightarrow> Stale n | x \<Rightarrow> x)
                     in case file_Close f of
                          Inl e \<Rightarrow> (Inl e, db1\<lparr>dbfile := f, mmap := m\<rparr>)
                        | Inr f1 \<Rightarrow> (Inr (), db1\<lparr>dbfile := f1, mmap := m\<rparr>)))))"



section \<open>Similarity search\<close>

text \<open>
  Comparisons of \<open>float32\<close> values, on bit patterns: a NaN compares false with everything,
  the two zeros are equal, and otherwise the order is the order of sign and magnitude.
\<close>

definition is_NaN :: "float32 \<Rightarrow> bool" where
  "is_NaN x \<longleftrightarrow> x AND 0x7F800000 = 0x7F800000 \<and> x AND 0x007FFFFF \<noteq> 0"

definition f32_ord :: "float32 \<Rightarrow> int" where
  "f32_ord x = (if bit x 31 then - uint (x AND 0x7FFFFFFF) else uint (x AND 0x7FFFFFFF))"

definition f32_gt :: "float32 \<Rightarrow> float32 \<Rightarrow> bool" where
  "f32_gt x y \<longleftrightarrow> \<not> is_NaN x \<and> \<not> is_NaN y \<and> f32_ord x > f32_ord y"

definition f32_ge :: "float32 \<Rightarrow> float32 \<Rightarrow> bool" where
  "f32_ge x y \<longleftrightarrow> \<not> is_NaN x \<and> \<not> is_NaN y \<and> f32_ord x \<ge> f32_ord y"

definition f32_is_zero :: "float32 \<Rightarrow> bool" where
  "f32_is_zero x \<longleftrightarrow> x AND 0x7FFFFFFF = 0"

abbreviation f32_zero :: float32 where "f32_zero \<equiv> 0"
abbreviation f32_minus_one :: float32 where "f32_minus_one \<equiv> 0xBF800000"

text \<open>
  The rounding arithmetic of the processor is a parameter: single-precision addition,
  multiplication and division, and \<open>float32(math.Sqrt(float64(x)))\<close>.
\<close>

record float_ops =
  fadd :: "float32 \<Rightarrow> float32 \<Rightarrow> float32"
  fmul :: "float32 \<Rightarrow> float32 \<Rightarrow> float32"
  fdiv :: "float32 \<Rightarrow> float32 \<Rightarrow> float32"
  fsqrt :: "float32 \<Rightarrow> float32"

definition cosineSimilarity :: "float_ops \<Rightarrow> float32 list \<Rightarrow> float32 list \<Rightarrow> float32" where
  "cosineSimilarity ops a b =
     (if length a \<noteq> length b then f32_minus_one
      else
        (case fold (\<lambda>(x, y) (dotProduct, normA, normB).
                      (fadd ops dotProduct (fmul ops x y), fadd ops normA (fmul ops x x),
                       fadd ops normB (fmul ops y y)))
                   (zip a b) (f32_zero, f32_zero, f32_zero) of
           (dotProduct, normA, normB) \<Rightarrow>
             if f32_is_zero normA \<or> f32_is_zero normB then f32_zero
             else fdiv ops dotProduct (fmul ops (fsqrt ops normA) (fsqrt ops normB))))"

text \<open>
  The scan of \<open>FindSimilar\<close> over the snapshot of offsets, with \<open>bestVector\<close> (nil: \<open>None\<close>)
  and \<open>bestScore\<close>. An error of \<open>readVector\<close> skips the record; a panic is not an error
  value and ends the scan.
\<close>

fun scan :: "float_ops \<Rightarrow> DB \<Rightarrow> float32 list \<Rightarrow> int list \<Rightarrow> sliceref option \<times> float32 \<Rightarrow> heap
    \<Rightarrow> (error + sliceref option \<times> float32) \<times> heap" where
  "scan ops db vector [] best hp = (Inr best, hp)"
| "scan ops db vector (offset # offsets) best hp =
     (case readVector db offset hp of
        (Inl Panic, hp1) \<Rightarrow> (Inl Panic, hp1)
      | (Inl e, hp1) \<Rightarrow> scan ops db vector offsets best hp1
      | (Inr cached, hp1) \<Rightarrow>
          (let score = cosineSimilarity ops vector (hp1 ! cached)
           in if f32_gt score (snd best) then scan ops db vector offsets (Some cached, score) hp1
              else scan ops db vector offsets best hp1))"

definition FindSimilar :: "float_ops \<Rightarrow> (uint64 \<times> int) list \<Rightarrow> float32 list \<Rightarrow> float32 \<Rightarrow> DB \<Rightarrow> heap
    \<Rightarrow> (error + sliceref option \<times> float32) \<times> heap" where
  "FindSimilar ops order vector threshold db hp =
     (if int (length vector) \<noteq> uint (dimension db) then (Inl ErrDimensionMismatch, hp)
      else
        (case scan ops db vector (map snd order) (None, f32_minus_one) hp of
           (Inl e, hp1) \<Rightarrow> (Inl e, hp1)
         | (Inr (bestVector, bestScore), hp1) \<Rightarrow>
             if f32_ge bestScore threshold then (Inr (bestVector, bestScore), hp1)
             else (Inl ErrNotFound, hp1)))"

section \<open>Invariants of the engine and test harness\<close>

text \<open>
  \<open>record_at m off h v\<close>: the bytes of \<open>m\<close> from offset \<open>off\<close> are the record of hash \<open>h\<close>
  and vector \<open>v\<close>.
\<close>

definition record_at :: "byte list \<Rightarrow> int \<Rightarrow> uint64 \<Rightarrow> float32 list \<Rightarrow> bool" where
  "record_at m off h v \<longleftrightarrow> 0 \<le> off \<and> off + 16 + 4 * int (length v) \<le> int (length m)
      \<and> take (16 + 4 * length v) (drop (nat off) m) = record_bytes h v"

text \<open>
  The state of an open engine between two operations: the file is open, the data section
  ends between the header and the end of the file, and the mapping is what \<open>remap\<close> and
  \<open>open\<close> leave, the whole file when it is longer than the header and nil otherwise.
\<close>

definition db_inv :: "DB \<Rightarrow> bool" where
  "db_inv db \<longleftrightarrow> is_open (dbfile db) \<and> HeaderSize \<le> dataEndOffset db
     \<and> dataEndOffset db \<le> int (length (contents (dbfile db)))
     \<and> mmap db = (if int (length (contents (dbfile db))) > HeaderSize
                   then Mapped (length (contents (dbfile db))) else NoMap)"

text \<open>
  \<open>stored db h v\<close>: the index sends \<open>h\<close> to a record of the data section that holds a
  vector \<open>v\<close> of the store's dimension. \<open>all_stored\<close>: every hash of the index is stored.
  \<open>cache_ok\<close>: every entry of the LRU refers to an array that holds the stored vector.
\<close>

definition stored :: "DB \<Rightarrow> uint64 \<Rightarrow> float32 list \<Rightarrow> bool" where
  "stored db h v \<longleftrightarrow> int (length v) = uint (dimension db) \<and>
     (\<exists>off. index db h = Some off \<and> HeaderSize \<le> off
        \<and> off + 16 + 4 * int (length v) \<le> dataEndOffset db
        \<and> record_at (contents (dbfile db)) off h v)"

definition all_stored :: "DB \<Rightarrow> bool" where
  "all_stored db \<longleftrightarrow> (\<forall>h \<in> dom (index db). \<exists>v. stored db h v)"

definition cache_ok :: "DB \<Rightarrow> heap \<Rightarrow> bool" where
  "cache_ok db hp \<longleftrightarrow> (\<forall>(h, a) \<in> set (lru (cache db)). a < length hp \<and> stored db h (hp ! a))"

text \<open>
  A caller that inserts a list of pairs, stopping at the first error, and a caller that
  reads a list of keys and leaves the returned arrays alone.
\<close>

fun insert_all :: "(string \<times> float32 list) list \<Rightarrow> DB \<Rightarrow> (error + unit) \<times> DB" where
  "insert_all [] db = (Inr (), db)"
| "insert_all ((k, v) # kvs) db =
     (case Insert k v db of (Inl e, db1) \<Rightarrow> (Inl e, db1) | (Inr u, db1) \<Rightarrow> insert_all kvs db1)"

definition get_all :: "string list \<Rightarrow> DB \<times> heap \<Rightarrow> DB \<times> heap" where
  "get_all ks s = fold (\<lambda>k s. snd (Get k s)) ks s"

text \<open>The engine \<open>create\<close> returns for a dimension and a cache size.\<close>

definition fresh_db :: "uint32 \<Rightarrow> int \<Rightarrow> DB" where
  "fresh_db dim cacheSize = \<lparr>dbfile = \<lparr>contents = Encode (NewHeader dim), is_open = True\<rparr>,
     mmap = NoMap, header = NewHeader dim, index = Map.empty, cache = NewLRUCache cacheSize,
     dimension = dim, dataEndOffset = HeaderSize\<rparr>"

text \<open>
  Example stores of dimension 1: after the insert of \<open>a\<close> with \<open>[1.0]\<close>, then of \<open>b\<close> with
  \<open>[2.0]\<close>; and after the insert of the key \<open>oPD553AfZI\<close> with \<open>[1.0]\<close>, whose hash
  \<open>0xcd00f8200eac83e3\<close> is also the hash of the key \<open>Wau09kI75B\<close>.
\<close>

definition ex_two :: "(string \<times> float32 list) list" where
  "ex_two = [(''a'', [0x3F800000]), (''b'', [0x40000000])]"

definition ex_collision :: "(string \<times> float32 list) list" where
  "ex_collision = [(''oPD553AfZI'', [0x3F800000]), (''Wau09kI75B'', [0x40000000])]"

definition ex_db_a :: DB where
  "ex_db_a = snd (Insert ''a'' [0x3F800000] (fresh_db 1 100))"

definition ex_db_ab :: DB where
  "ex_db_ab = snd (Insert ''b'' [0x40000000] ex_db_a)"

definition ex_db_c :: DB where
  "ex_db_c = snd (Insert ''oPD553AfZI'' [0x3F800000] (fresh_db 1 100))"



text \<open>
  The scan order of the two build modes: the entries the loop of \<open>buildIndexFromSection\<close>
  decodes from entry \<open>i\<close> on, and the (hash, offset) pairs the loop of \<open>buildIndexLegacy\<close>
  visits from \<open>offset\<close> on, each in the order of the loop.
\<close>

function section_scan :: "byte list \<Rightarrow> int \<Rightarrow> int \<Rightarrow> int \<Rightarrow> (uint64 \<times> int) list" where
  "section_scan m indexOffset numEntries i =
     (if i < numEntries then
        (let offset = int64 (indexOffset + int64 (i * IndexEntrySize))
         in if int64 (offset + IndexEntrySize) > int (length m) then []
            else (case subslice m offset (offset + IndexEntrySize) of
                    None \<Rightarrow> []
                  | Some b \<Rightarrow>
                      (Hash (DecodeIndexEntry b), Offset (DecodeIndexEntry b))
                        # section_scan m indexOffset numEntries (i + 1)))
      else [])"
  by pat_completeness auto
termination
  by (relation "measure (\<lambda>(m, indexOffset, numEntries, i). nat (numEntries - i))") auto

definition section_order :: "DB \<Rightarrow> (uint64 \<times> int) list" where
  "section_order db =
     section_scan (mmap_bytes db) (sint (IndexOffset (header db)))
       (quot (int64 (int (length (mmap_bytes db)) - sint (IndexOffset (header db)))) IndexEntrySize) 0"

function legacy_scan :: "byte list \<Rightarrow> int \<Rightarrow> (uint64 \<times> int) list" where
  "legacy_scan m offset =
     (if offset < int (length m) then
        (if offset + RecordMetaSize > int (length m) then []
         else (case (subslice m offset (offset + 8), subslice m (offset + 8) (offset + 12)) of
                 (Some hb, Some db) \<Rightarrow>
                   (Uint64 hb, offset) # legacy_scan m (offset + (RecordMetaSize + uint (Uint32 db) * 4))
               | _ \<Rightarrow> []))
      else [])"
  by pat_completeness auto
termination
proof (relation "measure (\<lambda>(m, offset). nat (int (length m) - offset))")
  show "wf (measure (\<lambda>(m, offset). nat (int (length m) - offset)))"
    by simp
next
  fix m :: "byte list" and offset :: int and x :: "byte list option \<times> byte list option"
    and xa y x2 and x2a :: "byte list"
  assume "offset < int (length m)"
  moreover have "- 4 < uint (Uint32 x2a)"
    using uint_ge_0 [of "Uint32 x2a"] by linarith
  ultimately show "((m, offset + (RecordMetaSize + uint (Uint32 x2a) * 4)), m, offset)
      \<in> measure (\<lambda>(m, offset). nat (int (length m) - offset))"
    by simp
qed

definition legacy_order :: "DB \<Rightarrow> (uint64 \<times> int) list" where
  "legacy_order db = legacy_scan (mmap_bytes db) HeaderSize"

text \<open>
  Two files whose records repeat a hash. Both hold two records of dimension 1 with hash
  7, at the offsets 256 and 276. The first is a version-2 file with an index section at
  296 that lists both; the second is a version-1 file without an index section.
\<close>

definition ex_dup_data :: "byte list" where
  "ex_dup_data = record_bytes 7 [0x3F800000] @ record_bytes 7 [0x40000000]"

definition ex_dup_section :: "byte list" where
  "ex_dup_section =
     Encode \<lparr>Magic = MagicBytes, Version = 2, Dimension = 1, RecordCount = 2, IndexOffset = 296,
       DataOffset = 256, Reserved = replicate 216 0\<rparr>
     @ ex_dup_data
     @ EncodeIndexEntry \<lparr>Hash = 7, Offset = 256\<rparr> @ EncodeIndexEntry \<lparr>Hash = 7, Offset = 276\<rparr>"

definition ex_dup_legacy :: "byte list" where
  "ex_dup_legacy =
     Encode \<lparr>Magic = MagicBytes, Version = 1, Dimension = 1, RecordCount = 2, IndexOffset = 0,
       DataOffset = 256, Reserved = replicate 216 0\<rparr>
     @ ex_dup_data"

text \<open>The engine \<open>open\<close> hands to \<open>buildIndex\<close> for a file and a dimension.\<close>

definition mapped_file :: "byte list \<Rightarrow> uint32 \<Rightarrow> DB" where
  "mapped_file bytes dim = (newDB dim 100)\<lparr>dbfile := \<lparr>contents = bytes, is_open = True\<rparr>,
     header := DecodeHeader (take 256 bytes), mmap := Mapped (length bytes)\<rparr>"

text \<open>
  Header-only files of dimension 1: one with the magic \<open>XDB\\0\<close>, one with the right magic
  and the version 7.
\<close>

definition ex_bad_magic :: "byte list" where
  "ex_bad_magic = Encode \<lparr>Magic = [0x58, 0x44, 0x42, 0x00], Version = 2, Dimension = 1,
     RecordCount = 0, IndexOffset = 0, DataOffset = 256, Reserved = replicate 216 0\<rparr>"

definition ex_version7 :: "byte list" where
  "ex_version7 = Encode \<lparr>Magic = MagicBytes, Version = 7, Dimension = 1,
     RecordCount = 0, IndexOffset = 0, DataOffset = 256, Reserved = replicate 216 0\<rparr>"

text \<open>
  The engine \<open>open\<close> hands to \<open>buildIndex\<close> for a file, a dimension and a cache size:
  file and decoded header set, the whole file mapped.
\<close>

definition mapped_db :: "byte list \<Rightarrow> uint32 \<Rightarrow> int \<Rightarrow> DB" where
  "mapped_db bytes dim cacheSize = (newDB dim cacheSize)\<lparr>dbfile := \<lparr>contents = bytes, is_open = True\<rparr>,
     header := DecodeHeader (take 256 bytes), mmap := Mapped (length bytes)\<rparr>"

text \<open>The entries \<open>writeIndexSection\<close> collects from the index, in the order of the \<open>range\<close>.\<close>

definition entries_of :: "(uint64 \<times> int) list \<Rightarrow> IndexEntry list" where
  "entries_of order = map (\<lambda>(hash, offset). \<lparr>Hash = hash, Offset = offset\<rparr>) order"

text \<open>The state \<open>Munmap\<close> leaves in the field \<open>mmap\<close>.\<close>

definition unmapped :: "mmap_state \<Rightarrow> mmap_state" where
  "unmapped m = (case m of Mapped n \<Rightarrow> Stale n | x \<Rightarrow> x)"

text \<open>
  The file an engine leaves when the process ends without \<open>Close\<close> after one insert into
  a fresh store of dimension 1 (the header on disk is still the one \<open>create\<close> wrote),
  the engine that opens it, and that engine after \<open>Close\<close>.
\<close>

definition ex_unclosed :: "byte list" where
  "ex_unclosed = Encode (NewHeader 1) @ record_bytes (HashText ''a'') [0x3F800000]"

definition ex_reopened :: DB where
  "ex_reopened = projr (Open (Some ex_unclosed) 1)"

definition ex_reclosed :: DB where
  "ex_reclosed = snd (Close [(HashText ''a'', 256)] ex_reopened)"

text \<open>
  The header's record count is the number of hashes in the index, the version is 2, and
  every offset of the index lies in the data section.
\<close>

definition count_inv :: "DB \<Rightarrow> bool" where
  "count_inv db \<longleftrightarrow> finite (dom (index db))
     \<and> RecordCount (header db) = word_of_nat (card (dom (index db)))
     \<and> Version (header db) = 2
     \<and> (\<forall>h off. index db h = Some off \<longrightarrow> HeaderSize \<le> off \<and> off < dataEndOffset db)"


section \<open>Sequences of cache operations\<close>

text \<open>
  A cache operation of a test sequence: \<open>Put\<close> of a hash and an array, or \<open>Get\<close> of a hash.
  \<open>run_ops\<close> applies a sequence, oldest operation first.
\<close>

datatype cache_op = OpPut uint64 sliceref | OpGet uint64

fun key_of :: "cache_op \<Rightarrow> uint64" where
  "key_of (OpPut h v) = h"
| "key_of (OpGet h) = h"

fun apply_op :: "cache_op \<Rightarrow> LRUCache \<Rightarrow> LRUCache" where
  "apply_op (OpPut h v) c = LRUCache_Put h v c"
| "apply_op (OpGet h) c = snd (LRUCache_Get h c)"

definition run_ops :: "cache_op list \<Rightarrow> LRUCache \<Rightarrow> LRUCache" where
  "run_ops ops c = foldl (\<lambda>c op. apply_op op c) c ops"

definition cache_keys :: "LRUCache \<Rightarrow> uint64 list" where
  "cache_keys c = map fst (lru c)"

text \<open>
  The words of the specification. An operation touches its key when it is a \<open>put\<close>, or a
  \<open>get\<close> that hits (a \<open>get\<close> that misses finds no entry to promote). \<open>touches\<close> lists the
  touched keys of a sequence, the most recent first; \<open>distinct_keys\<close> keeps of every key
  its first, that is most recent, occurrence; \<open>most_recent n\<close> are the \<open>n\<close> most recently
  touched distinct keys, or all of them if there are fewer. \<open>last_access\<close> is the position
  (counted from 1) of the most recent \<open>get\<close> or \<open>put\<close> of a key in the sequence, hit or
  not, and 0 for a key with no operation.
\<close>

fun touched :: "cache_op \<Rightarrow> LRUCache \<Rightarrow> bool" where
  "touched (OpPut h v) c = True"
| "touched (OpGet h) c = (fst (LRUCache_Get h c) \<noteq> None)"

definition touch_step :: "uint64 list \<times> LRUCache \<Rightarrow> cache_op \<Rightarrow> uint64 list \<times> LRUCache" where
  "touch_step s op =
     ((if touched op (snd s) then key_of op # fst s else fst s), apply_op op (snd s))"

definition touches :: "cache_op list \<Rightarrow> LRUCache \<Rightarrow> uint64 list" where
  "touches ops c = fst (foldl touch_step ([], c) ops)"

fun distinct_keys :: "uint64 list \<Rightarrow> uint64 list" where
  "distinct_keys [] = []"
| "distinct_keys (k # ks) = k # removeAll k (distinct_keys ks)"

definition most_recent :: "nat \<Rightarrow> uint64 list \<Rightarrow> uint64 list" where
  "most_recent n ts = take n (distinct_keys ts)"

definition last_access :: "cache_op list \<Rightarrow> uint64 \<Rightarrow> nat" where
  "last_access ops k = length (dropWhile (\<lambda>op. key_of op \<noteq> k) (rev ops))"

text \<open>The store that holds the key \<open>a\<close>, after a first \<open>Get\<close> of that key.\<close>

definition ex_db_got :: DB where
  "ex_db_got = fst (snd (Get ''a'' (ex_db_a, [])))"

section \<open>Byte-level lemmas\<close>

lemma length_PutUint32 [simp]: "length (PutUint32 v) = 4" by (simp add: PutUint32_def)
lemma length_PutUint64 [simp]: "length (PutUint64 v) = 8" by (simp add: PutUint64_def)

lemma Uint32_PutUint32 [simp]: "Uint32 (PutUint32 v) = v"
  unfolding Uint32_def PutUint32_def
  apply (rule bit_word_eqI)
  subgoal for n
    apply (cases "n < 8"; cases "n < 16"; cases "n < 24")
    apply (simp_all add: bit_simps not_less)
    apply (safe; simp)+
    done
  done

lemma those_map_Some: "(\<And>x. x \<in> set xs \<Longrightarrow> f x = Some (g x)) \<Longrightarrow> those (map f xs) = Some (map g xs)"
  by (induction xs) auto

lemma length_concat_Put: "length (concat (map PutUint32 v)) = 4 * length v"
  by (induction v) auto

lemma chunk_concat_Put: "i < length v \<Longrightarrow> take 4 (drop (4 * i) (concat (map PutUint32 v))) = PutUint32 (v ! i)"
proof (induction v arbitrary: i)
  case Nil then show ?case by simp
next
  case (Cons x v)
  show ?case
  proof (cases i)
    case 0 then show ?thesis by simp
  next
    case (Suc j)
    with Cons show ?thesis by simp
  qed
qed

lemma length_record_bytes [simp]: "length (record_bytes h v) = 16 + 4 * length v"
  by (simp add: record_bytes_def length_concat_Put)

lemma take_take_drop: "n + k \<le> L \<Longrightarrow> take k (drop n (take L (drop a m))) = take k (drop (a + n) m)"
  by (simp add: drop_take add.commute)

lemma record_at_D:
  assumes "record_at m off h v"
  shows "0 \<le> off" "off + 16 + 4 * int (length v) \<le> int (length m)"
    "take (16 + 4 * length v) (drop (nat off) m) = record_bytes h v"
  using assms unfolding record_at_def by blast+

lemma record_at_dim:
  assumes "record_at m off h v"
  shows "subslice m (off + 8) (off + 12) = Some (PutUint32 (word_of_nat (length v)))"
proof -
  note b = record_at_D(1,2) [OF assms(1)] and r = record_at_D(3) [OF assms(1)]
  have "take 4 (drop 8 (take (16 + 4 * length v) (drop (nat off) m))) = take 4 (drop (nat off + 8) m)"
    by (rule take_take_drop) simp
  moreover have "take 4 (drop 8 (record_bytes h v)) = PutUint32 (word_of_nat (length v))"
    by (simp add: record_bytes_def)
  ultimately have "take 4 (drop (nat off + 8) m) = PutUint32 (word_of_nat (length v))"
    using r by simp
  moreover have "nat (off + 8) = nat off + 8" using b by simp
  ultimately show ?thesis using b by (simp add: subslice_def)
qed

lemma record_at_float:
  assumes "record_at m off h v" and "i < length v"
  shows "subslice m (off + 16 + int i * 4) (off + 16 + int i * 4 + 4) = Some (PutUint32 (v ! i))"
proof -
  note b = record_at_D(1,2) [OF assms(1)] and r = record_at_D(3) [OF assms(1)]
  have "take 4 (drop (16 + 4 * i) (take (16 + 4 * length v) (drop (nat off) m))) = take 4 (drop (nat off + (16 + 4 * i)) m)"
    by (rule take_take_drop) (use assms in simp)
  moreover have "take 4 (drop (16 + 4 * i) (record_bytes h v)) = PutUint32 (v ! i)"
    using assms(2) by (simp add: record_bytes_def chunk_concat_Put)
  ultimately have "take 4 (drop (nat off + (16 + 4 * i)) m) = PutUint32 (v ! i)"
    using r by simp
  moreover have "nat (off + 16 + int i * 4) = nat off + (16 + 4 * i)" using b by (simp add: nat_add_distrib)
  ultimately show ?thesis using b assms(2) by (simp add: subslice_def)
qed

lemma read_floats_record:
  assumes "record_at m off h v"
  shows "read_floats m (off + 16) (length v) = Some v"
proof -
  have "those (map (\<lambda>i. map_option Uint32 (subslice m (off + 16 + int i * 4) (off + 16 + int i * 4 + 4))) [0..<length v])
      = Some (map (\<lambda>i. v ! i) [0..<length v])"
  proof (rule those_map_Some)
    fix x assume "x \<in> set [0..<length v]"
    then have "x < length v" by simp
    from record_at_float [OF assms this]
    show "map_option Uint32 (subslice m (off + 16 + int x * 4) (off + 16 + int x * 4 + 4)) = Some (v ! x)"
      by (simp only: option.map Uint32_PutUint32)
  qed
  then show ?thesis by (simp add: read_floats_def map_nth)
qed

lemma pwrite_length: "off \<le> length old \<Longrightarrow> length (pwrite old off buf) = max (length old) (off + length buf)"
  by (auto simp: pwrite_def)

lemma pwrite_below:
  assumes "a + n \<le> off" "off \<le> length old"
  shows "take n (drop a (pwrite old off buf)) = take n (drop a old)"
proof -
  have "pwrite old off buf = take off old @ (buf @ drop (off + length buf) old)"
    using assms by (simp add: pwrite_def)
  moreover have "take n (drop a (take off old @ (buf @ drop (off + length buf) old))) = take n (drop a (take off old))"
    using assms by simp
  moreover have "take n (drop a (take off old)) = take n (drop a old)"
    using assms by (simp add: drop_take)
  ultimately show ?thesis by simp
qed

lemma record_bytes_nonempty [simp]: "record_bytes h v \<noteq> []"
  by (simp add: record_bytes_def PutUint64_def)

lemma pwrite_at:
  assumes "off \<le> length old"
  shows "take (length buf) (drop off (pwrite old off buf)) = buf"
  using assms by (simp add: pwrite_def)

lemma WriteAt_Inr:
  assumes "WriteAt f b off = Inr f1" and "b \<noteq> []"
  shows "is_open f \<and> 0 \<le> off \<and> off + int (length b) < 2 ^ 63
     \<and> f1 = f\<lparr>contents := pwrite (contents f) (nat off) b\<rparr>"
  using assms by (simp add: WriteAt_def split: if_splits)

lemma remap_open:
  assumes "is_open (dbfile db)" and "\<forall>n. mmap db \<noteq> Stale n"
  shows "remap db = (Inr (), db\<lparr>mmap := (if int (length (contents (dbfile db))) > HeaderSize
            then Mapped (length (contents (dbfile db))) else NoMap)\<rparr>)"
proof (cases "mmap db")
  case NoMap
  with assms(1) show ?thesis by (simp add: remap_def Stat_Size_def)
next
  case (Mapped n)
  with assms(1) show ?thesis by (simp add: remap_def Stat_Size_def)
next
  case (Stale n)
  with assms(2) show ?thesis by simp
qed

lemma Insert_new:
  assumes ok: "Insert k v db = (Inr (), db1)" and inv: "db_inv db"
    and new: "index db (HashText k) = None"
  shows "db_inv db1 \<and> int (length v) = uint (dimension db)
     \<and> index db1 = (index db)(HashText k \<mapsto> dataEndOffset db)
     \<and> cache db1 = cache db \<and> dimension db1 = dimension db
     \<and> contents (dbfile db1) = pwrite (contents (dbfile db)) (nat (dataEndOffset db)) (record_bytes (HashText k) v)
     \<and> dataEndOffset db1 = dataEndOffset db + 16 + 4 * int (length v)
     \<and> header db1 = (header db)\<lparr>RecordCount := RecordCount (header db) + 1\<rparr>"
proof -
  let ?h = "HashText k"
  let ?buf = "record_bytes ?h v"
  let ?d = "dataEndOffset db"
  from ok have len: "int (length v) = uint (dimension db)"
    by (simp add: Insert_def split: if_splits)
  from ok len new obtain f where w: "WriteAt (dbfile db) ?buf ?d = Inr f"
    and r: "remap (db\<lparr>dbfile := f, index := (index db)(?h \<mapsto> ?d),
               header := (header db)\<lparr>RecordCount := RecordCount (header db) + 1\<rparr>,
               dataEndOffset := ?d + (RecordMetaSize + int (length v) * 4)\<rparr>) = (Inr (), db1)"
    by (simp add: Insert_def Let_def split: sum.splits)
  from WriteAt_Inr [OF w] have f: "f = (dbfile db)\<lparr>contents := pwrite (contents (dbfile db)) (nat ?d) ?buf\<rparr>"
    and op: "is_open (dbfile db)" by simp_all
  from inv have de: "HeaderSize \<le> ?d" "?d \<le> int (length (contents (dbfile db)))"
    and mm: "\<forall>n. mmap db \<noteq> Stale n"
    by (auto simp: db_inv_def split: if_splits)
  let ?db2 = "db\<lparr>dbfile := f, index := (index db)(?h \<mapsto> ?d),
               header := (header db)\<lparr>RecordCount := RecordCount (header db) + 1\<rparr>,
               dataEndOffset := ?d + (RecordMetaSize + int (length v) * 4)\<rparr>"
  have "remap ?db2 = (Inr (), ?db2\<lparr>mmap := (if int (length (contents (dbfile ?db2))) > HeaderSize
            then Mapped (length (contents (dbfile ?db2))) else NoMap)\<rparr>)"
    by (rule remap_open) (use op f mm in simp_all)
  with r have db1: "db1 = ?db2\<lparr>mmap := (if int (length (contents (dbfile ?db2))) > HeaderSize
            then Mapped (length (contents (dbfile ?db2))) else NoMap)\<rparr>"
    by simp
  have L: "length (contents f) = max (length (contents (dbfile db))) (nat ?d + (16 + 4 * length v))"
    using de by (simp add: f pwrite_length)
  then have "?d + (16 + int (length v) * 4) \<le> int (length (contents f))"
    using de by linarith
  then have "db_inv db1"
    using de op by (simp add: db1 db_inv_def f)
  then show ?thesis
    by (simp add: db1 len f)
qed

lemma stored_Insert_old:
  assumes ok: "Insert k v db = (Inr (), db1)" and inv: "db_inv db"
    and new: "index db (HashText k) = None" and st: "stored db h w"
  shows "stored db1 h w"
proof -
  note I = Insert_new [OF ok inv new]
  from st obtain off where o: "index db h = Some off" "HeaderSize \<le> off"
      "off + 16 + 4 * int (length w) \<le> dataEndOffset db"
      "record_at (contents (dbfile db)) off h w" and len: "int (length w) = uint (dimension db)"
    by (auto simp: stored_def)
  from o new have ne: "h \<noteq> HashText k" by auto
  from inv have de: "dataEndOffset db \<le> int (length (contents (dbfile db)))" "0 \<le> dataEndOffset db"
    by (auto simp: db_inv_def)
  have "take (16 + 4 * length w) (drop (nat off) (contents (dbfile db1)))
      = take (16 + 4 * length w) (drop (nat off) (contents (dbfile db)))"
    unfolding I [THEN conjunct2, THEN conjunct2, THEN conjunct2, THEN conjunct2, THEN conjunct2, THEN conjunct1]
    by (rule pwrite_below) (use o de in auto)
  moreover have "int (length (contents (dbfile db))) \<le> int (length (contents (dbfile db1)))"
    using I de by (simp add: pwrite_length)
  ultimately have "record_at (contents (dbfile db1)) off h w"
    using o(4) by (auto simp: record_at_def)
  then show ?thesis
    using I o ne len by (auto simp: stored_def)
qed

lemma stored_Insert_new:
  assumes ok: "Insert k v db = (Inr (), db1)" and inv: "db_inv db"
    and new: "index db (HashText k) = None"
  shows "stored db1 (HashText k) v"
proof -
  note I = Insert_new [OF ok inv new]
  from inv have de: "dataEndOffset db \<le> int (length (contents (dbfile db)))" "HeaderSize \<le> dataEndOffset db"
    by (auto simp: db_inv_def)
  have "take (length (record_bytes (HashText k) v)) (drop (nat (dataEndOffset db)) (contents (dbfile db1)))
      = record_bytes (HashText k) v"
    unfolding I [THEN conjunct2, THEN conjunct2, THEN conjunct2, THEN conjunct2, THEN conjunct2, THEN conjunct1]
    by (rule pwrite_at) (use de in auto)
  moreover have "nat (dataEndOffset db) + (16 + 4 * length v) \<le> length (contents (dbfile db1))"
    using I de by (simp add: pwrite_length)
  then have "dataEndOffset db + 16 + 4 * int (length v) \<le> int (length (contents (dbfile db1)))"
    using de by linarith
  ultimately have "record_at (contents (dbfile db1)) (dataEndOffset db) (HashText k) v"
    using de by (auto simp: record_at_def)
  then show ?thesis
    using I de by (auto simp: stored_def)
qed

lemma Insert_noop:
  assumes ok: "Insert k v db = (Inr (), db1)" and old: "index db (HashText k) \<noteq> None"
  shows "db1 = db"
  using assms by (auto simp: Insert_def split: if_splits)

lemma insert_all_stored:
  assumes "insert_all kvs db = (Inr (), db1)" and "db_inv db"
    and "distinct (map (\<lambda>kv. HashText (fst kv)) kvs)"
    and "\<forall>(k, v) \<in> set kvs. index db (HashText k) = None"
  shows "db_inv db1 \<and> cache db1 = cache db \<and> dimension db1 = dimension db
    \<and> (\<forall>(k, v) \<in> set kvs. stored db1 (HashText k) v)
    \<and> (\<forall>h w. stored db h w \<longrightarrow> stored db1 h w)"
  using assms
proof (induction kvs arbitrary: db)
  case Nil
  then show ?case by simp
next
  case (Cons kv kvs)
  obtain k v where kv: "kv = (k, v)" by (cases kv)
  from Cons.prems(1) kv obtain db2 where
    i: "Insert k v db = (Inr (), db2)" and r: "insert_all kvs db2 = (Inr (), db1)"
    by (auto split: prod.splits sum.splits)
  from Cons.prems(4) kv have new: "index db (HashText k) = None" by simp
  note I = Insert_new [OF i Cons.prems(2) new]
  have d: "distinct (map (\<lambda>kv. HashText (fst kv)) kvs)" and nk: "HashText k \<notin> (\<lambda>kv. HashText (fst kv)) ` set kvs"
    using Cons.prems(3) kv by auto
  have n2: "\<forall>(k', v') \<in> set kvs. index db2 (HashText k') = None"
  proof (clarify)
    fix k' v' assume m: "(k', v') \<in> set kvs"
    with nk have "HashText k' \<noteq> HashText k" by force
    moreover from m Cons.prems(4) have "index db (HashText k') = None" by auto
    ultimately show "index db2 (HashText k') = None" using I by simp
  qed
  from Cons.IH [OF r _ d n2] I
  have IH: "db_inv db1" "cache db1 = cache db2" "dimension db1 = dimension db2"
      "\<forall>(k, v) \<in> set kvs. stored db1 (HashText k) v"
      "\<forall>h w. stored db2 h w \<longrightarrow> stored db1 h w"
    by auto
  have "stored db1 (HashText k) v"
    using IH(5) stored_Insert_new [OF i Cons.prems(2) new] by blast
  moreover have "\<forall>h w. stored db h w \<longrightarrow> stored db1 h w"
    using IH(5) stored_Insert_old [OF i Cons.prems(2) new] by blast
  ultimately show ?case
    using IH I kv by auto
qed

lemma stored_unique:
  assumes "stored db h v" and "stored db h w"
  shows "v = w"
proof -
  from assms(1) obtain off where a: "index db h = Some off" "record_at (contents (dbfile db)) off h v"
    by (auto simp: stored_def)
  from assms(2) obtain off' where b: "index db h = Some off'" "record_at (contents (dbfile db)) off' h w"
    by (auto simp: stored_def)
  from a b have o: "off' = off" by simp
  from assms have "int (length v) = int (length w)" by (simp add: stored_def)
  then have l: "length w = length v" by simp
  have "Some v = read_floats (contents (dbfile db)) (off + 16) (length v)"
    using read_floats_record [OF a(2)] by simp
  also have "\<dots> = Some w"
    using read_floats_record [OF b(2)] unfolding o l .
  finally show ?thesis by simp
qed

lemma readVector_stored:
  assumes inv: "db_inv db" and st: "stored db h v" and ix: "index db h = Some off"
  shows "readVector db off hp = (Inr (length hp), hp @ [v])"
proof -
  from st ix have o: "HeaderSize \<le> off" "off + 16 + 4 * int (length v) \<le> dataEndOffset db"
      "record_at (contents (dbfile db)) off h v" and len: "int (length v) = uint (dimension db)"
    by (auto simp: stored_def)
  from inv o have m: "mmap db = Mapped (length (contents (dbfile db)))"
    by (auto simp: db_inv_def split: if_splits)
  then have mb: "mmap_bytes db = contents (dbfile db)"
    by (simp add: mmap_bytes_def)
  have "unat (word_of_nat (length v) :: uint32) = length v"
  proof (rule of_nat_inverse [OF refl])
    have "int (length v) < 2 ^ 32"
      using len uint_bounded [of "dimension db"] by simp
    then show "length v < 2 ^ LENGTH(32)" by simp
  qed
  then show ?thesis
    using m mb record_at_dim [OF o(3)] read_floats_record [OF o(3)]
    by (simp add: readVector_def make_slice_def)
qed

lemma set_lru_Put: "set (lru (LRUCache_Put h a c)) \<subseteq> insert (h, a) (set (lru c))"
proof (cases "map_of (lru c) h")
  case None
  have "set (butlast ((h, a) # lru c)) \<subseteq> set ((h, a) # lru c)"
    by (meson in_set_butlastD subsetI)
  with None show ?thesis
    by (auto simp: LRUCache_Put_def evict_def Let_def)
next
  case (Some old)
  have "set (remove1 (h, old) (lru c)) \<subseteq> set (lru c)"
    by (rule set_remove1_subset)
  with Some show ?thesis
    by (auto simp: LRUCache_Put_def)
qed

lemma set_lru_Get: "set (lru (snd (LRUCache_Get h c))) \<subseteq> set (lru c)"
proof (cases "map_of (lru c) h")
  case None
  then show ?thesis by (simp add: LRUCache_Get_def)
next
  case (Some a)
  then have "(h, a) \<in> set (lru c)" by (rule map_of_SomeD)
  moreover have "set (remove1 (h, a) (lru c)) \<subseteq> set (lru c)"
    by (rule set_remove1_subset)
  ultimately show ?thesis using Some
    by (auto simp: LRUCache_Get_def)
qed

lemma stored_cache_update [simp]: "stored (db\<lparr>cache := c\<rparr>) h v = stored db h v"
  by (simp add: stored_def)

lemma db_inv_cache_update [simp]: "db_inv (db\<lparr>cache := c\<rparr>) = db_inv db"
  by (simp add: db_inv_def)

lemma all_stored_cache_update [simp]: "all_stored (db\<lparr>cache := c\<rparr>) = all_stored db"
  by (simp add: all_stored_def)

lemma Get_miss:
  assumes "db_inv db" and "stored db (HashText k) v" and "map_of (lru (cache db)) (HashText k) = None"
  shows "Get k (db, hp) = (Inr (length hp),
           db\<lparr>cache := LRUCache_Put (HashText k) (length hp) (cache db)\<rparr>, hp @ [v])"
proof -
  from assms(2) obtain off where ix: "index db (HashText k) = Some off"
    by (auto simp: stored_def)
  from readVector_stored [OF assms(1,2) ix, of hp] ix assms(3) show ?thesis
    by (simp add: Get_def LRUCache_Get_def Let_def)
qed

lemma Get_hit:
  assumes "map_of (lru (cache db)) (HashText k) = Some a"
  shows "Get k (db, hp) = (Inr a, db\<lparr>cache := snd (LRUCache_Get (HashText k) (cache db))\<rparr>, hp)"
  using assms by (simp add: Get_def LRUCache_Get_def Let_def)

lemma Get_absent:
  assumes "map_of (lru (cache db)) (HashText k) = None" and "index db (HashText k) = None"
  shows "Get k (db, hp) = (Inl ErrNotFound, db, hp)"
  using assms by (simp add: Get_def LRUCache_Get_def Let_def)

lemma cache_ok_extend:
  assumes "cache_ok db hp" and "set (lru c) \<subseteq> insert (h, length hp) (set (lru (cache db)))"
    and "stored db h v"
  shows "cache_ok (db\<lparr>cache := c\<rparr>) (hp @ [v])"
  unfolding cache_ok_def
proof (clarify)
  fix h' a assume "(h', a) \<in> set (lru (cache (db\<lparr>cache := c\<rparr>)))"
  then have "(h', a) = (h, length hp) \<or> (h', a) \<in> set (lru (cache db))"
    using assms(2) by auto
  then show "a < length (hp @ [v]) \<and> stored (db\<lparr>cache := c\<rparr>) h' ((hp @ [v]) ! a)"
  proof
    assume "(h', a) = (h, length hp)"
    with assms(3) show ?thesis by simp
  next
    assume "(h', a) \<in> set (lru (cache db))"
    with assms(1) have "a < length hp" "stored db h' (hp ! a)"
      by (auto simp: cache_ok_def)
    then show ?thesis by (simp add: nth_append)
  qed
qed

lemma cache_ok_shrink:
  assumes "cache_ok db hp" and "set (lru c) \<subseteq> set (lru (cache db))"
  shows "cache_ok (db\<lparr>cache := c\<rparr>) hp"
  using assms by (auto simp: cache_ok_def)

lemma Get_step:
  assumes inv: "db_inv db" and al: "all_stored db" and ok: "cache_ok db hp"
  shows "\<exists>r c hp'. Get k (db, hp) = (r, db\<lparr>cache := c\<rparr>, hp') \<and> cache_ok (db\<lparr>cache := c\<rparr>) hp'
     \<and> (\<forall>v. stored db (HashText k) v \<longrightarrow> (\<exists>a. r = Inr a \<and> hp' ! a = v))"
proof (cases "map_of (lru (cache db)) (HashText k)")
  case (Some a)
  then have m: "(HashText k, a) \<in> set (lru (cache db))" by (rule map_of_SomeD)
  with ok have a: "a < length hp" "stored db (HashText k) (hp ! a)"
    by (auto simp: cache_ok_def)
  have "cache_ok (db\<lparr>cache := snd (LRUCache_Get (HashText k) (cache db))\<rparr>) hp"
    by (rule cache_ok_shrink [OF ok set_lru_Get])
  moreover have "\<forall>v. stored db (HashText k) v \<longrightarrow> hp ! a = v"
    using a(2) stored_unique by blast
  ultimately show ?thesis
    using Get_hit [OF Some, of hp] by auto
next
  case None
  show ?thesis
  proof (cases "index db (HashText k)")
    case N: None
    have "db\<lparr>cache := cache db\<rparr> = db" by simp
    moreover have "\<forall>v. \<not> stored db (HashText k) v"
      using N by (auto simp: stored_def)
    ultimately show ?thesis
      using Get_absent [OF None N, of hp] ok by metis
  next
    case (Some off)
    with al obtain v where v: "stored db (HashText k) v"
      by (auto simp: all_stored_def)
    have "cache_ok (db\<lparr>cache := LRUCache_Put (HashText k) (length hp) (cache db)\<rparr>) (hp @ [v])"
      by (rule cache_ok_extend [OF ok set_lru_Put v])
    moreover have "\<forall>w. stored db (HashText k) w \<longrightarrow> (hp @ [v]) ! length hp = w"
      using v stored_unique by auto
    ultimately show ?thesis
      using Get_miss [OF inv v None, of hp] by auto
  qed
qed

lemma get_all_ok:
  assumes "db_inv db" and "all_stored db" and "cache_ok db hp"
  shows "\<exists>c hp'. get_all ks (db, hp) = (db\<lparr>cache := c\<rparr>, hp') \<and> cache_ok (db\<lparr>cache := c\<rparr>) hp'"
  using assms(3)
proof (induction ks arbitrary: hp rule: rev_induct)
  case Nil
  have "db\<lparr>cache := cache db\<rparr> = db" by simp
  with Nil show ?case by (metis fold_simps(1) get_all_def)
next
  case (snoc k ks)
  from snoc.IH [OF snoc.prems] obtain c hp1 where
    g: "get_all ks (db, hp) = (db\<lparr>cache := c\<rparr>, hp1)" and ok1: "cache_ok (db\<lparr>cache := c\<rparr>) hp1"
    by blast
  have "db_inv (db\<lparr>cache := c\<rparr>)" "all_stored (db\<lparr>cache := c\<rparr>)"
    using assms(1,2) by simp_all
  from Get_step [OF this ok1, of k] obtain r c2 hp2 where
    "Get k (db\<lparr>cache := c\<rparr>, hp1) = (r, db\<lparr>cache := c2\<rparr>, hp2)" "cache_ok (db\<lparr>cache := c2\<rparr>) hp2"
    by auto
  then show ?case
    using g by (auto simp: get_all_def)
qed

lemma OpenWithOptions_fresh:
  "OpenWithOptions None dim opts = Inr (fresh_db dim (if CacheSize opts = 0 then 100 else CacheSize opts))"
  by (simp add: OpenWithOptions_def create_def newDB_def fresh_db_def Let_def)

lemma length_Encode [simp]: "length (Encode h) = 256"
  by (simp add: Encode_def)

lemma fresh_inv: "db_inv (fresh_db dim cs)"
  by (simp add: db_inv_def fresh_db_def)

lemma fresh_all_stored: "all_stored (fresh_db dim cs)"
  by (simp add: all_stored_def fresh_db_def)

lemma fresh_cache_ok: "cache_ok (fresh_db dim cs) hp"
  by (simp add: cache_ok_def fresh_db_def NewLRUCache_def)

lemma Insert_keeps:
  assumes ok: "Insert k v db = (Inr (), db1)" and inv: "db_inv db" and al: "all_stored db"
  shows "db_inv db1 \<and> all_stored db1 \<and> cache db1 = cache db \<and> stored db1 (HashText k) v
    \<or> (db1 = db \<and> index db (HashText k) \<noteq> None)"
proof (cases "index db (HashText k)")
  case (Some off)
  with ok have "db1 = db" by (simp add: Insert_noop)
  with Some show ?thesis by simp
next
  case None
  note I = Insert_new [OF ok inv None]
  have "all_stored db1"
    unfolding all_stored_def
  proof
    fix h assume "h \<in> dom (index db1)"
    with I have "h = HashText k \<or> h \<in> dom (index db)" by auto
    then show "\<exists>w. stored db1 h w"
    proof
      assume "h = HashText k"
      with stored_Insert_new [OF ok inv None] show ?thesis by blast
    next
      assume "h \<in> dom (index db)"
      with al obtain w where "stored db h w" by (auto simp: all_stored_def)
      with stored_Insert_old [OF ok inv None] show ?thesis by blast
    qed
  qed
  with I stored_Insert_new [OF ok inv None] show ?thesis by simp
qed

lemma insert_all_keeps:
  assumes "insert_all kvs db = (Inr (), db1)" and "db_inv db" and "all_stored db"
  shows "db_inv db1 \<and> all_stored db1 \<and> cache db1 = cache db"
  using assms
proof (induction kvs arbitrary: db)
  case Nil
  then show ?case by simp
next
  case (Cons kv kvs)
  obtain k v where kv: "kv = (k, v)" by (cases kv)
  from Cons.prems(1) kv obtain db2 where
    i: "Insert k v db = (Inr (), db2)" and r: "insert_all kvs db2 = (Inr (), db1)"
    by (auto split: prod.splits sum.splits)
  from Insert_keeps [OF i Cons.prems(2,3)] Cons.prems(2,3)
  have "db_inv db2 \<and> all_stored db2 \<and> cache db2 = cache db" by auto
  with Cons.IH [OF r] show ?case by simp
qed

text \<open>
  C1, as amended. On an engine created fresh for a dimension \<open>D\<close>, after the insertion
  of a list of pairs whose keys have pairwise distinct hashes has succeeded, \<open>Get\<close> of
  every inserted key returns an array that holds exactly the inserted vector, bit for
  bit, also after any number of earlier \<open>Get\<close> calls (which fill the LRU cache).
  Distinct keys are not enough: two keys with one hash share the first key's record.
\<close>

theorem insert_then_get:
  assumes "OpenWithOptions None D opts = Inr db0"
    and "insert_all kvs db0 = (Inr (), db)"
    and "distinct (map (\<lambda>kv. HashText (fst kv)) kvs)"
    and "(k, v) \<in> set kvs"
  shows "\<exists>a db' hp'. Get k (get_all qs (db, hp)) = (Inr a, db', hp') \<and> hp' ! a = v"
proof -
  let ?f = "fresh_db D (if CacheSize opts = 0 then 100 else CacheSize opts)"
  from assms(1) have db0: "db0 = ?f"
    by (simp add: OpenWithOptions_fresh)
  have new: "\<forall>(k, v) \<in> set kvs. index db0 (HashText k) = None"
    by (simp add: db0 fresh_db_def)
  have inv0: "db_inv db0" and al0: "all_stored db0"
    by (simp_all add: db0 fresh_inv fresh_all_stored)
  from insert_all_stored [OF assms(2) inv0 assms(3) new] assms(4)
  have st: "stored db (HashText k) v" by auto
  from insert_all_keeps [OF assms(2) inv0 al0]
  have inv: "db_inv db" and al: "all_stored db" and c: "cache db = cache db0" by auto
  have ok: "cache_ok db hp"
    using c by (simp add: cache_ok_def db0 fresh_db_def NewLRUCache_def)
  from get_all_ok [OF inv al ok, of qs] obtain c1 hp1 where
    g: "get_all qs (db, hp) = (db\<lparr>cache := c1\<rparr>, hp1)" and ok1: "cache_ok (db\<lparr>cache := c1\<rparr>) hp1"
    by blast
  have "db_inv (db\<lparr>cache := c1\<rparr>)" "all_stored (db\<lparr>cache := c1\<rparr>)"
    using inv al by simp_all
  from Get_step [OF this ok1, of k] st show ?thesis
    unfolding g by auto
qed

lemma Insert_succeeds:
  assumes inv: "db_inv db" and len: "int (length v) = uint (dimension db)"
    and room: "dataEndOffset db + 16 + 4 * int (length v) < 2 ^ 63"
  shows "fst (Insert k v db) = Inr ()"
proof (cases "index db (HashText k)")
  case (Some off)
  with len show ?thesis by (simp add: Insert_def)
next
  case None
  let ?d = "dataEndOffset db"
  let ?f = "(dbfile db)\<lparr>contents := pwrite (contents (dbfile db)) (nat ?d) (record_bytes (HashText k) v)\<rparr>"
  let ?db2 = "db\<lparr>dbfile := ?f, index := (index db)(HashText k \<mapsto> ?d),
               header := (header db)\<lparr>RecordCount := RecordCount (header db) + 1\<rparr>,
               dataEndOffset := ?d + (RecordMetaSize + int (length v) * 4)\<rparr>"
  from inv have op: "is_open (dbfile db)" and de: "HeaderSize \<le> ?d"
    and mm: "\<forall>n. mmap db \<noteq> Stale n"
    by (auto simp: db_inv_def split: if_splits)
  have w: "WriteAt (dbfile db) (record_bytes (HashText k) v) ?d = Inr ?f"
    using op de room by (simp add: WriteAt_def)
  have "fst (remap ?db2) = Inr ()"
    by (subst remap_open) (use op mm in simp_all)
  with len None w show ?thesis
    by (simp add: Insert_def Let_def)
qed

lemma Insert_a: "Insert ''a'' [0x3F800000] (fresh_db 1 100) = (Inr (), ex_db_a)"
proof -
  have "fst (Insert ''a'' [0x3F800000] (fresh_db 1 100)) = Inr ()"
    by (rule Insert_succeeds) (simp_all add: fresh_inv, simp_all add: fresh_db_def)
  then show ?thesis by (simp add: prod_eq_iff ex_db_a_def)
qed

lemma index_fresh: "index (fresh_db dim cs) h = None"
  by (simp add: fresh_db_def)

lemmas ex_db_a_facts = Insert_new [OF Insert_a fresh_inv index_fresh]

lemma Insert_b: "Insert ''b'' [0x40000000] ex_db_a = (Inr (), ex_db_ab)"
proof -
  have "fst (Insert ''b'' [0x40000000] ex_db_a) = Inr ()"
    by (rule Insert_succeeds) (use ex_db_a_facts in \<open>simp_all add: fresh_db_def\<close>)
  then show ?thesis by (simp add: prod_eq_iff ex_db_ab_def)
qed

lemma insert_ex_two: "insert_all ex_two (fresh_db 1 100) = (Inr (), ex_db_ab)"
  by (simp add: ex_two_def Insert_a Insert_b)

lemma hash_a_b: "HashText ''a'' \<noteq> HashText ''b''"
  by (simp add: HashText_def)

theorem insert_then_get_witness:
  "OpenWithOptions None 1 \<lparr>LazyLoad = True, CacheSize = 100\<rparr> = Inr (fresh_db 1 100)
   \<and> insert_all ex_two (fresh_db 1 100) = (Inr (), ex_db_ab)
   \<and> distinct (map (\<lambda>kv. HashText (fst kv)) ex_two)
   \<and> (''b'', [0x40000000]) \<in> set ex_two
   \<and> (\<exists>a db' hp'. Get ''b'' (get_all [''a'', ''b''] (ex_db_ab, [])) = (Inr a, db', hp')
          \<and> hp' ! a = [0x40000000])"
proof -
  have 1: "OpenWithOptions None 1 \<lparr>LazyLoad = True, CacheSize = 100\<rparr> = Inr (fresh_db 1 100)"
    by (simp add: OpenWithOptions_fresh)
  have 3: "distinct (map (\<lambda>kv. HashText (fst kv)) ex_two)"
    using hash_a_b by (simp add: ex_two_def)
  have 4: "(''b'', [0x40000000]) \<in> set ex_two"
    by (simp add: ex_two_def)
  from insert_then_get [OF 1 insert_ex_two 3 4] 1 insert_ex_two 3 4 show ?thesis
    by blast
qed

lemma collision: "HashText ''Wau09kI75B'' = HashText ''oPD553AfZI''"
  by (simp add: HashText_def)

lemma Insert_c: "Insert ''oPD553AfZI'' [0x3F800000] (fresh_db 1 100) = (Inr (), ex_db_c)"
proof -
  have "fst (Insert ''oPD553AfZI'' [0x3F800000] (fresh_db 1 100)) = Inr ()"
    by (rule Insert_succeeds) (simp_all add: fresh_inv, simp_all add: fresh_db_def)
  then show ?thesis by (simp add: prod_eq_iff ex_db_c_def)
qed

lemmas ex_db_c_facts = Insert_new [OF Insert_c fresh_inv index_fresh]

lemma Insert_c2: "Insert ''Wau09kI75B'' [0x40000000] ex_db_c = (Inr (), ex_db_c)"
proof -
  have "index ex_db_c (HashText ''Wau09kI75B'') \<noteq> None"
    using ex_db_c_facts by (simp add: collision)
  moreover have "int (length [0x40000000 :: float32]) = uint (dimension ex_db_c)"
    using ex_db_c_facts by (simp add: fresh_db_def)
  ultimately show ?thesis
    by (simp add: Insert_def)
qed

theorem insert_then_get_counterexample:
  "distinct (map fst ex_collision)
   \<and> OpenWithOptions None 1 \<lparr>LazyLoad = True, CacheSize = 100\<rparr> = Inr (fresh_db 1 100)
   \<and> insert_all ex_collision (fresh_db 1 100) = (Inr (), ex_db_c)
   \<and> (''Wau09kI75B'', [0x40000000]) \<in> set ex_collision
   \<and> fst (Get ''Wau09kI75B'' (ex_db_c, [])) = Inr 0
   \<and> snd (snd (Get ''Wau09kI75B'' (ex_db_c, []))) ! 0 = [0x3F800000]"
proof -
  have st: "stored ex_db_c (HashText ''Wau09kI75B'') [0x3F800000]"
    unfolding collision by (rule stored_Insert_new [OF Insert_c fresh_inv index_fresh])
  have all: "insert_all ex_collision (fresh_db 1 100) = (Inr (), ex_db_c)"
    by (simp add: ex_collision_def Insert_c Insert_c2)
  have "map_of (lru (cache ex_db_c)) (HashText ''Wau09kI75B'') = None"
    using ex_db_c_facts by (simp add: fresh_db_def NewLRUCache_def)
  from Get_miss [OF _ st this, of "[]"] ex_db_c_facts
  have "Get ''Wau09kI75B'' (ex_db_c, [])
      = (Inr 0, ex_db_c\<lparr>cache := LRUCache_Put (HashText ''Wau09kI75B'') 0 (cache ex_db_c)\<rparr>, [[0x3F800000]])"
    by simp
  moreover have "distinct (map fst ex_collision)" "(''Wau09kI75B'', [0x40000000]) \<in> set ex_collision"
    by (simp_all add: ex_collision_def)
  ultimately show ?thesis
    by (simp add: all OpenWithOptions_fresh)
qed

lemma remap_keeps: "remap db = (r, db1) \<Longrightarrow> index db1 = index db \<and> dimension db1 = dimension db"
  by (cases "mmap db") (auto simp: remap_def Let_def split: sum.splits if_splits)

lemma Insert_ok_index:
  assumes "Insert k v db = (Inr (), db1)"
  shows "index db1 (HashText k) \<noteq> None \<and> dimension db1 = dimension db"
proof (cases "index db (HashText k)")
  case (Some off)
  with assms have "db1 = db" by (simp add: Insert_noop)
  with Some show ?thesis by simp
next
  case None
  with assms obtain db2 where "remap db2 = (Inr (), db1)"
    and "index db2 (HashText k) \<noteq> None" and "dimension db2 = dimension db"
    by (auto simp: Insert_def Let_def split: if_splits sum.splits)
  with remap_keeps [of db2 "Inr ()" db1] show ?thesis by simp
qed

text \<open>
  C8. Insert is idempotent per key: a vector of the store's dimension inserted under a key
  whose hash is in the index returns success and leaves the whole state (file bytes,
  index, record count, end of data, mapping, cache) as it is; in particular a second
  insert under a key, after a first one that succeeded, changes nothing.
\<close>

theorem Insert_idempotent:
  assumes "int (length v') = uint (dimension db)"
  shows "(index db (HashText k) \<noteq> None \<longrightarrow> Insert k v' db = (Inr (), db))
     \<and> (Insert k v db = (Inr (), db1) \<longrightarrow> Insert k v' db1 = (Inr (), db1))"
proof (intro conjI impI)
  assume "index db (HashText k) \<noteq> None"
  with assms show "Insert k v' db = (Inr (), db)"
    by (simp add: Insert_def)
next
  assume "Insert k v db = (Inr (), db1)"
  from Insert_ok_index [OF this] assms show "Insert k v' db1 = (Inr (), db1)"
    by (simp add: Insert_def)
qed

theorem Insert_idempotent_witness:
  "int (length [0x3F800000 :: float32]) = uint (dimension (fresh_db 1 100))
   \<and> Insert ''a'' [0x3F800000] (fresh_db 1 100) = (Inr (), ex_db_a)
   \<and> Insert ''a'' [0x3F800000] ex_db_a = (Inr (), ex_db_a)
   \<and> int (length [0x3F800000 :: float32]) = uint (dimension ex_db_a)
   \<and> index ex_db_a (HashText ''a'') \<noteq> None
   \<and> Insert ''a'' [0x40000000] ex_db_a = (Inr (), ex_db_a)"
proof -
  have d0: "int (length [0x3F800000 :: float32]) = uint (dimension (fresh_db 1 100))"
    by (simp add: fresh_db_def)
  have d1: "int (length [0x40000000 :: float32]) = uint (dimension ex_db_a)"
    using ex_db_a_facts by (simp add: fresh_db_def)
  have ix: "index ex_db_a (HashText ''a'') \<noteq> None"
    using ex_db_a_facts by simp
  from Insert_idempotent [OF d0, of "''a''" "[0x3F800000]" ex_db_a]
    Insert_idempotent [OF d1, of "''a''" "[0x40000000]" ex_db_a]
    Insert_a d0 d1 ix
  show ?thesis by simp
qed

text \<open>
  C7, as amended. An insert of a vector whose length differs from the store's dimension
  fails with the dimension error and leaves the whole state as it is, so a later \<open>Get\<close>
  of that key returns what it would have returned before: the not-found error when the
  key's hash is neither in the cache nor in the index.
\<close>

theorem Insert_wrong_dimension:
  assumes "int (length v) \<noteq> uint (dimension db)"
  shows "Insert k v db = (Inl ErrDimensionMismatch, db)
     \<and> Get k (snd (Insert k v db), hp) = Get k (db, hp)
     \<and> (index db (HashText k) = None \<and> map_of (lru (cache db)) (HashText k) = None
          \<longrightarrow> Get k (snd (Insert k v db), hp) = (Inl ErrNotFound, db, hp))"
  using assms by (simp add: Insert_def Get_absent)

theorem Insert_wrong_dimension_witness:
  "int (length [0x3DCCCCCD, 0x3E4CCCCD :: float32]) \<noteq> uint (dimension (fresh_db 3 100))
   \<and> index (fresh_db 3 100) (HashText ''x'') = None
   \<and> map_of (lru (cache (fresh_db 3 100))) (HashText ''x'') = None
   \<and> Insert ''x'' [0x3DCCCCCD, 0x3E4CCCCD] (fresh_db 3 100) = (Inl ErrDimensionMismatch, fresh_db 3 100)
   \<and> Get ''x'' (snd (Insert ''x'' [0x3DCCCCCD, 0x3E4CCCCD] (fresh_db 3 100)), [])
        = (Inl ErrNotFound, fresh_db 3 100, [])"
proof -
  have d: "int (length [0x3DCCCCCD, 0x3E4CCCCD :: float32]) \<noteq> uint (dimension (fresh_db 3 100))"
    by (simp add: fresh_db_def)
  have n: "index (fresh_db 3 100) (HashText ''x'') = None"
      "map_of (lru (cache (fresh_db 3 100))) (HashText ''x'') = None"
    by (simp_all add: fresh_db_def NewLRUCache_def)
  from Insert_wrong_dimension [OF d, of "''x''" "[]"] d n show ?thesis
    by blast
qed

theorem Insert_wrong_dimension_counterexample:
  "Insert ''a'' [0x3F800000] (fresh_db 1 100) = (Inr (), ex_db_a)
   \<and> int (length ([] :: float32 list)) \<noteq> uint (dimension ex_db_a)
   \<and> Insert ''a'' [] ex_db_a = (Inl ErrDimensionMismatch, ex_db_a)
   \<and> fst (Get ''a'' (snd (Insert ''a'' [] ex_db_a), [])) = Inr 0
   \<and> snd (snd (Get ''a'' (snd (Insert ''a'' [] ex_db_a), []))) ! 0 = [0x3F800000]"
proof -
  have d: "int (length ([] :: float32 list)) \<noteq> uint (dimension ex_db_a)"
    using ex_db_a_facts by (simp add: fresh_db_def)
  then have i: "Insert ''a'' [] ex_db_a = (Inl ErrDimensionMismatch, ex_db_a)"
    by (simp add: Insert_def)
  have st: "stored ex_db_a (HashText ''a'') [0x3F800000]"
    by (rule stored_Insert_new [OF Insert_a fresh_inv index_fresh])
  have "map_of (lru (cache ex_db_a)) (HashText ''a'') = None"
    using ex_db_a_facts by (simp add: fresh_db_def NewLRUCache_def)
  from Get_miss [OF _ st this, of "[]"] ex_db_a_facts
  have "Get ''a'' (ex_db_a, [])
      = (Inr 0, ex_db_a\<lparr>cache := LRUCache_Put (HashText ''a'') 0 (cache ex_db_a)\<rparr>, [[0x3F800000]])"
    by simp
  with d i Insert_a show ?thesis by simp
qed

section \<open>Building the index\<close>

declare section_loop.simps [simp del] section_scan.simps [simp del]
  legacy_loop.simps [simp del] legacy_scan.simps [simp del]

lemma upd_scan: "idx(h \<mapsto> off) ++ map_of (rev es) = idx ++ map_of (rev ((h, off) # es))"
  by (rule ext) (simp add: map_add_def split: option.splits)

lemma last_wins:
  assumes "h \<notin> fst ` set post"
  shows "(idx ++ map_of (rev (pre @ (h, off) # post))) h = Some off"
proof -
  from assms have "map_of (rev post) h = None"
    by (simp add: map_of_eq_None_iff)
  then show ?thesis
    by (simp add: map_add_def)
qed

lemma section_loop_scan:
  "section_loop m io n i idx = Inr idx' \<Longrightarrow> idx' = idx ++ map_of (rev (section_scan m io n i))"
proof (induction m io n i idx rule: section_loop.induct)
  case (1 m io n i idx)
  show ?case
  proof (cases "i < n")
    case False
    with "1.prems" show ?thesis
      by (simp add: section_loop.simps [of m io n i idx] section_scan.simps [of m io n i])
  next
    case True
    let ?off = "int64 (io + int64 (i * IndexEntrySize))"
    show ?thesis
    proof (cases "int64 (?off + IndexEntrySize) > int (length m)")
      case brk: True
      with True "1.prems" show ?thesis
        by (simp add: section_loop.simps [of m io n i idx] section_scan.simps [of m io n i] Let_def)
    next
      case nb: False
      show ?thesis
      proof (cases "subslice m ?off (?off + IndexEntrySize)")
        case None
        with True nb "1.prems" show ?thesis
          by (simp add: section_loop.simps [of m io n i idx] Let_def)
      next
        case (Some b)
        let ?e = "DecodeIndexEntry b"
        from True nb Some "1.prems"
        have r: "section_loop m io n (i + 1) (idx(Hash ?e \<mapsto> Offset ?e)) = Inr idx'"
          by (simp add: section_loop.simps [of m io n i idx] Let_def)
        have "idx' = idx(Hash ?e \<mapsto> Offset ?e) ++ map_of (rev (section_scan m io n (i + 1)))"
          by (rule "1.IH" [OF True refl _ Some refl r]) (use nb in simp)
        moreover have "section_scan m io n i = (Hash ?e, Offset ?e) # section_scan m io n (i + 1)"
          using True nb Some by (simp add: section_scan.simps [of m io n i] Let_def)
        ultimately show ?thesis
          by (simp only: upd_scan)
      qed
    qed
  qed
qed

lemma legacy_loop_scan:
  "legacy_loop m offset idx = Inr idx' \<Longrightarrow> idx' = idx ++ map_of (rev (legacy_scan m offset))"
proof (induction m offset idx rule: legacy_loop.induct)
  case (1 m offset idx)
  show ?case
  proof (cases "offset < int (length m) \<and> \<not> offset + RecordMetaSize > int (length m)")
    case False
    with "1.prems" show ?thesis
      by (auto simp: legacy_loop.simps [of m offset idx] legacy_scan.simps [of m offset]
          split: if_splits)
  next
    case True
    show ?thesis
    proof (cases "subslice m offset (offset + 8)")
      case None
      with True "1.prems" show ?thesis
        by (simp add: legacy_loop.simps [of m offset idx])
    next
      case hb: (Some hb)
      show ?thesis
      proof (cases "subslice m (offset + 8) (offset + 12)")
        case None
        with True hb "1.prems" show ?thesis
          by (simp add: legacy_loop.simps [of m offset idx])
      next
        case (Some db)
        let ?next = "offset + (RecordMetaSize + uint (Uint32 db) * 4)"
        from True hb Some "1.prems"
        have r: "legacy_loop m ?next (idx(Uint64 hb \<mapsto> offset)) = Inr idx'"
          by (simp add: legacy_loop.simps [of m offset idx] Let_def)
        from True have a: "offset < int (length m)" and b: "\<not> int (length m) < offset + RecordMetaSize"
          by simp_all
        have "idx' = idx(Uint64 hb \<mapsto> offset) ++ map_of (rev (legacy_scan m ?next))"
          by (rule "1.IH" [OF a b _ _ _ refl refl refl r]) (simp_all add: hb Some)
        moreover have "legacy_scan m offset = (Uint64 hb, offset) # legacy_scan m ?next"
          using True hb Some by (simp add: legacy_scan.simps [of m offset])
        ultimately show ?thesis
          by (simp only: upd_scan)
      qed
    qed
  qed
qed

lemma Uint64_PutUint64 [simp]: "Uint64 (PutUint64 v) = v"
proof (rule bit_word_eqI)
  fix n assume "n < LENGTH(64)"
  then consider "n < 8" | "8 \<le> n" "n < 16" | "16 \<le> n" "n < 24" | "24 \<le> n" "n < 32"
    | "32 \<le> n" "n < 40" | "40 \<le> n" "n < 48" | "48 \<le> n" "n < 56" | "56 \<le> n" "n < 64"
    by fastforce
  then show "bit (Uint64 (PutUint64 v)) n = bit v n"
    by cases (auto simp add: Uint64_def PutUint64_def bit_simps)
qed

lemma int64_id: "- (2 ^ 63) \<le> x \<Longrightarrow> x < 2 ^ 63 \<Longrightarrow> int64 x = x"
  by (simp add: int64_def sint_sbintrunc' signed_take_bit_int_eq_self)

lemma DecodeHeader_Encode:
  "DecodeHeader (Encode h) = h\<lparr>Magic := take 4 (Magic h @ replicate 4 0), Reserved := replicate 216 0\<rparr>"
  by (simp add: DecodeHeader_def Encode_def)

lemma DecodeIndexEntry_Encode:
  "DecodeIndexEntry (EncodeIndexEntry e) = e\<lparr>Offset := int64 (Offset e)\<rparr>"
  by (simp add: DecodeIndexEntry_def EncodeIndexEntry_def int64_def)

lemma length_EncodeIndexEntry [simp]: "length (EncodeIndexEntry e) = 16"
  by (simp add: EncodeIndexEntry_def)

lemma subslice_mid:
  assumes "lo = int (length pre)" and "hi = lo + int (length mid)"
  shows "subslice (pre @ mid @ post) lo hi = Some mid"
  using assms by (simp add: subslice_def)

lemma t1: "length ex_dup_section = 328"
  by (simp add: ex_dup_section_def ex_dup_data_def)

lemmas eval_build = mapped_file_def section_order_def legacy_order_def ex_dup_section_def
  ex_dup_legacy_def ex_dup_data_def DecodeHeader_Encode MagicBytes_def mmap_bytes_def quot_def
  int64_id subslice_def Let_def DecodeIndexEntry_Encode newDB_def

lemma section_order_ex: "section_order (mapped_file ex_dup_section 1) = [(7, 256), (7, 276)]"
  by (simp add: eval_build section_scan.simps)

lemma legacy_order_ex: "legacy_order (mapped_file ex_dup_legacy 1) = [(7, 256), (7, 276)]"
  by (simp add: eval_build legacy_scan.simps record_bytes_def)

lemma buildIndexFromSection_order:
  assumes "buildIndexFromSection db = Inr db1"
  shows "index db1 = index db ++ map_of (rev (section_order db))"
proof -
  let ?io = "sint (IndexOffset (header db))"
  let ?n = "quot (int64 (int (length (mmap_bytes db)) - ?io)) IndexEntrySize"
  show ?thesis
  proof (cases "?n = 0")
    case True
    then have "section_order db = []"
      by (simp add: section_order_def section_scan.simps)
    with True assms show ?thesis
      by (auto simp: buildIndexFromSection_def Let_def)
  next
    case False
    with assms obtain idx where l: "section_loop (mmap_bytes db) ?io ?n 0 (index db) = Inr idx"
      and d: "db1 = db\<lparr>index := idx\<rparr>"
      by (auto simp: buildIndexFromSection_def Let_def split: sum.splits)
    from section_loop_scan [OF l] d show ?thesis
      by (simp add: section_order_def)
  qed
qed

lemma buildIndexLegacy_order:
  assumes "buildIndexLegacy db = Inr db1"
  shows "index db1 = index db ++ map_of (rev (legacy_order db))"
proof -
  from assms obtain idx where l: "legacy_loop (mmap_bytes db) HeaderSize (index db) = Inr idx"
    and d: "db1 = db\<lparr>index := idx\<rparr>"
    by (auto simp: buildIndexLegacy_def split: sum.splits)
  from legacy_loop_scan [OF l] d show ?thesis
    by (simp add: legacy_order_def)
qed

text \<open>
  C4, as amended. In both build modes, a hash that occurs at several positions of the
  scan ends up mapped to the offset of its last occurrence in scan order: each entry is
  stored with a plain map assignment, which overwrites.
\<close>

theorem buildIndex_keeps_last_occurrence:
  "(buildIndexFromSection db = Inr db1 \<longrightarrow> section_order db = pre @ (h, off) # post
      \<longrightarrow> h \<notin> fst ` set post \<longrightarrow> index db1 h = Some off)
   \<and> (buildIndexLegacy db = Inr db2 \<longrightarrow> legacy_order db = pre' @ (h', off') # post'
      \<longrightarrow> h' \<notin> fst ` set post' \<longrightarrow> index db2 h' = Some off')"
  using buildIndexFromSection_order [of db db1] buildIndexLegacy_order [of db db2]
    last_wins [of h post "index db" pre off] last_wins [of h' post' "index db" pre' off']
  by auto

lemma buildIndexFromSection_ex:
  "\<not> isl (buildIndexFromSection (mapped_file ex_dup_section 1))"
  "index (projr (buildIndexFromSection (mapped_file ex_dup_section 1))) 7 = Some 276"
  by (simp_all add: buildIndexFromSection_def eval_build section_loop.simps)

lemma buildIndexLegacy_ex:
  "\<not> isl (buildIndexLegacy (mapped_file ex_dup_legacy 1))"
  "index (projr (buildIndexLegacy (mapped_file ex_dup_legacy 1))) 7 = Some 276"
  by (simp_all add: buildIndexLegacy_def eval_build legacy_loop.simps record_bytes_def)

lemma Open_ex_section:
  "\<not> isl (Open (Some ex_dup_section) 1)"
  "index (projr (Open (Some ex_dup_section) 1)) 7 = Some 276"
  by (simp_all add: Open_def OpenWithOptions_def open_db_def buildIndex_def buildIndexFromSection_def
      eval_build section_loop.simps)

lemma Open_ex_legacy:
  "\<not> isl (Open (Some ex_dup_legacy) 1)"
  "index (projr (Open (Some ex_dup_legacy) 1)) 7 = Some 276"
  by (simp_all add: Open_def OpenWithOptions_def open_db_def buildIndex_def buildIndexLegacy_def
      eval_build legacy_loop.simps record_bytes_def)

theorem buildIndex_keeps_last_occurrence_witness:
  "section_order (mapped_file ex_dup_section 1) = [(7, 256)] @ (7, 276) # []
   \<and> buildIndexFromSection (mapped_file ex_dup_section 1)
       = Inr (projr (buildIndexFromSection (mapped_file ex_dup_section 1)))
   \<and> index (projr (buildIndexFromSection (mapped_file ex_dup_section 1))) 7 = Some 276
   \<and> legacy_order (mapped_file ex_dup_legacy 1) = [(7, 256)] @ (7, 276) # []
   \<and> buildIndexLegacy (mapped_file ex_dup_legacy 1)
       = Inr (projr (buildIndexLegacy (mapped_file ex_dup_legacy 1)))
   \<and> index (projr (buildIndexLegacy (mapped_file ex_dup_legacy 1))) 7 = Some 276"
proof -
  let ?s = "mapped_file ex_dup_section 1" and ?l = "mapped_file ex_dup_legacy 1"
  have s: "buildIndexFromSection ?s = Inr (projr (buildIndexFromSection ?s))"
    using buildIndexFromSection_ex(1) by simp
  have l: "buildIndexLegacy ?l = Inr (projr (buildIndexLegacy ?l))"
    using buildIndexLegacy_ex(1) by simp
  have so: "section_order ?s = [(7, 256)] @ (7, 276) # []"
    by (simp add: section_order_ex)
  have lo: "legacy_order ?l = [(7, 256)] @ (7, 276) # []"
    by (simp add: legacy_order_ex)
  have e: "(7 :: uint64) \<notin> fst ` set ([] :: (uint64 \<times> int) list)"
    by simp
  from buildIndex_keeps_last_occurrence [of ?s "projr (buildIndexFromSection ?s)" "[(7, 256)]" 7 276 "[]"
      "projr (buildIndexLegacy ?s)" "[]" 7 276 "[]"]
    s so e
  have a: "index (projr (buildIndexFromSection ?s)) 7 = Some 276" by blast
  from buildIndex_keeps_last_occurrence [of ?l "projr (buildIndexFromSection ?l)" "[]" 7 276 "[]"
      "projr (buildIndexLegacy ?l)" "[(7, 256)]" 7 276 "[]"]
    l lo e
  have b: "index (projr (buildIndexLegacy ?l)) 7 = Some 276" by blast
  from s l so lo a b show ?thesis by blast
qed

theorem buildIndex_first_occurrence_counterexample:
  "section_order (mapped_file ex_dup_section 1) = [(7, 256), (7, 276)]
   \<and> \<not> isl (buildIndexFromSection (mapped_file ex_dup_section 1))
   \<and> index (projr (buildIndexFromSection (mapped_file ex_dup_section 1))) 7 = Some 276
   \<and> \<not> isl (Open (Some ex_dup_section) 1)
   \<and> index (projr (Open (Some ex_dup_section) 1)) 7 = Some 276
   \<and> legacy_order (mapped_file ex_dup_legacy 1) = [(7, 256), (7, 276)]
   \<and> \<not> isl (buildIndexLegacy (mapped_file ex_dup_legacy 1))
   \<and> index (projr (buildIndexLegacy (mapped_file ex_dup_legacy 1))) 7 = Some 276
   \<and> \<not> isl (Open (Some ex_dup_legacy) 1)
   \<and> index (projr (Open (Some ex_dup_legacy) 1)) 7 = Some 276"
  using section_order_ex legacy_order_ex buildIndexFromSection_ex buildIndexLegacy_ex
    Open_ex_section Open_ex_legacy
  by blast

section \<open>Opening an existing file\<close>

lemma section_loop_error: "section_loop m io n i idx = Inl e \<Longrightarrow> e = Panic"
proof (induction m io n i idx rule: section_loop.induct)
  case (1 m io n i idx)
  from "1.prems" show ?case
    by (subst (asm) section_loop.simps)
      (auto simp: Let_def split: if_splits option.splits intro: "1.IH")
qed

lemma legacy_loop_error: "legacy_loop m offset idx = Inl e \<Longrightarrow> e = Panic"
proof (induction m offset idx rule: legacy_loop.induct)
  case (1 m offset idx)
  from "1.prems" show ?case
    by (subst (asm) legacy_loop.simps)
      (auto simp: Let_def split: if_splits option.splits intro: "1.IH")
qed

lemma buildIndex_error: "buildIndex db = Inl e \<Longrightarrow> e = Panic"
  by (auto simp: buildIndex_def buildIndexFromSection_def buildIndexLegacy_def Let_def
      split: if_splits sum.splits dest: section_loop_error legacy_loop_error)

lemma take_drop_prefix: "n + k \<le> p \<Longrightarrow> take k (drop n (take p b)) = take k (drop n b)"
  by (simp add: drop_take)

lemma DecodeHeader_prefix: "DecodeHeader (take 36 b) = DecodeHeader b"
  by (simp add: DecodeHeader_def drop_take)

lemma open_db_error: "open_db db bytes = Inl e \<Longrightarrow> e \<in> {ErrIO, ErrInvalidFormat, ErrDimensionMismatch, Panic}"
  by (auto simp: open_db_def Let_def split: if_splits sum.splits dest: buildIndex_error)

lemma buildIndexFromSection_header: "buildIndexFromSection db = Inr db2 \<Longrightarrow> header db2 = header db"
  by (auto simp: buildIndexFromSection_def Let_def split: if_splits sum.splits)

lemma buildIndexLegacy_header: "buildIndexLegacy db = Inr db2 \<Longrightarrow> header db2 = header db"
  by (auto simp: buildIndexLegacy_def split: sum.splits)

text \<open>
  C6, as amended. On an existing file of at least 256 bytes, open fails with the format
  error whenever the magic of the decoded header differs from \<open>EDB\\0\<close>, and with the
  dimension error whenever the magic is right and the dimension of the header differs
  from the requested one. The version is not validated: with the right magic, open never
  fails with the format error, whatever the version, and a header-only file with the
  right magic and dimension opens. On a longer file with the right magic and dimension,
  a version of 2 or more together with a positive index offset selects the index-section
  mode, with the data section ending at the index offset, and any other version or a
  zero index offset selects the legacy scan, with the data section ending at the end of
  the file. The header is decoded from bytes 0 to 35 alone.
\<close>

theorem open_header_checks:
  assumes "256 \<le> length bytes"
  shows "(Magic (DecodeHeader (take 256 bytes)) \<noteq> MagicBytes
            \<longrightarrow> OpenWithOptions (Some bytes) D opts = Inl ErrInvalidFormat)
     \<and> (Magic (DecodeHeader (take 256 bytes)) = MagicBytes
            \<and> Dimension (DecodeHeader (take 256 bytes)) \<noteq> D
            \<longrightarrow> OpenWithOptions (Some bytes) D opts = Inl ErrDimensionMismatch)
     \<and> (Magic (DecodeHeader (take 256 bytes)) = MagicBytes
            \<longrightarrow> OpenWithOptions (Some bytes) D opts \<noteq> Inl ErrInvalidFormat)
     \<and> (Magic (DecodeHeader (take 256 bytes)) = MagicBytes
            \<and> Dimension (DecodeHeader (take 256 bytes)) = D \<and> length bytes = 256
            \<longrightarrow> \<not> isl (OpenWithOptions (Some bytes) D opts))
     \<and> (Magic (DecodeHeader (take 256 bytes)) = MagicBytes
            \<and> Dimension (DecodeHeader (take 256 bytes)) = D \<and> 256 < length bytes
            \<longrightarrow> OpenWithOptions (Some bytes) D opts =
                (if 2 \<le> Version (DecodeHeader (take 256 bytes))
                      \<and> 0 < IndexOffset (DecodeHeader (take 256 bytes))
                 then map_sum id
                        (\<lambda>db. db\<lparr>dataEndOffset := sint (IndexOffset (DecodeHeader (take 256 bytes)))\<rparr>)
                        (buildIndexFromSection
                           (mapped_db bytes D (if CacheSize opts = 0 then 100 else CacheSize opts)))
                 else map_sum id (\<lambda>db. db\<lparr>dataEndOffset := int (length bytes)\<rparr>)
                        (buildIndexLegacy
                           (mapped_db bytes D (if CacheSize opts = 0 then 100 else CacheSize opts)))))
     \<and> DecodeHeader (take 36 bytes) = DecodeHeader (take 256 bytes)"
proof (intro conjI impI)
  assume "Magic (DecodeHeader (take 256 bytes)) \<noteq> MagicBytes"
  with assms show "OpenWithOptions (Some bytes) D opts = Inl ErrInvalidFormat"
    by (simp add: OpenWithOptions_def open_db_def newDB_def Let_def)
next
  assume "Magic (DecodeHeader (take 256 bytes)) = MagicBytes
      \<and> Dimension (DecodeHeader (take 256 bytes)) \<noteq> D"
  with assms show "OpenWithOptions (Some bytes) D opts = Inl ErrDimensionMismatch"
    by (simp add: OpenWithOptions_def open_db_def newDB_def Let_def)
next
  assume m: "Magic (DecodeHeader (take 256 bytes)) = MagicBytes"
  show "OpenWithOptions (Some bytes) D opts \<noteq> Inl ErrInvalidFormat"
  proof
    assume "OpenWithOptions (Some bytes) D opts = Inl ErrInvalidFormat"
    with assms m show False
      by (auto simp: OpenWithOptions_def open_db_def newDB_def Let_def
          split: if_splits sum.splits dest: buildIndex_error)
  qed
next
  assume a: "Magic (DecodeHeader (take 256 bytes)) = MagicBytes
      \<and> Dimension (DecodeHeader (take 256 bytes)) = D \<and> length bytes = 256"
  then have l: "length bytes = 256" by blast
  then have t: "take 256 bytes = bytes" by simp
  from a l have "Magic (DecodeHeader bytes) = MagicBytes" "Dimension (DecodeHeader bytes) = D"
      "length bytes = 256"
    unfolding t by blast+
  then show "\<not> isl (OpenWithOptions (Some bytes) D opts)"
    by (simp add: OpenWithOptions_def open_db_def newDB_def Let_def)
next
  let ?cs = "if CacheSize opts = 0 then 100 else CacheSize opts"
  let ?hdr = "DecodeHeader (take 256 bytes)"
  assume a: "Magic ?hdr = MagicBytes \<and> Dimension ?hdr = D \<and> 256 < length bytes"
  have o: "OpenWithOptions (Some bytes) D opts =
      (case buildIndex (mapped_db bytes D ?cs) of
         Inl e \<Rightarrow> Inl e
       | Inr db2 \<Rightarrow> Inr (db2\<lparr>dataEndOffset :=
            (if Version (header db2) \<ge> 2 \<and> IndexOffset (header db2) > 0
             then sint (IndexOffset (header db2)) else int (length bytes))\<rparr>))"
    using a by (simp add: OpenWithOptions_def open_db_def mapped_db_def newDB_def Let_def)
  have h: "header (mapped_db bytes D ?cs) = ?hdr"
    by (simp add: mapped_db_def)
  show "OpenWithOptions (Some bytes) D opts =
      (if 2 \<le> Version ?hdr \<and> 0 < IndexOffset ?hdr
       then map_sum id (\<lambda>db. db\<lparr>dataEndOffset := sint (IndexOffset ?hdr)\<rparr>)
              (buildIndexFromSection (mapped_db bytes D ?cs))
       else map_sum id (\<lambda>db. db\<lparr>dataEndOffset := int (length bytes)\<rparr>)
              (buildIndexLegacy (mapped_db bytes D ?cs)))"
  proof (cases "2 \<le> Version ?hdr \<and> 0 < IndexOffset ?hdr")
    case True
    then have b: "buildIndex (mapped_db bytes D ?cs) = buildIndexFromSection (mapped_db bytes D ?cs)"
      by (simp add: buildIndex_def h)
    show ?thesis
    proof (cases "buildIndexFromSection (mapped_db bytes D ?cs)")
      case (Inl e)
      with True show ?thesis unfolding o b by simp
    next
      case (Inr db2)
      then have "header db2 = ?hdr"
        using buildIndexFromSection_header [of "mapped_db bytes D ?cs" db2] h by simp
      with True Inr show ?thesis unfolding o b by simp
    qed
  next
    case False
    then have b: "buildIndex (mapped_db bytes D ?cs) = buildIndexLegacy (mapped_db bytes D ?cs)"
      unfolding buildIndex_def h by (rule if_not_P)
    from False have c: "(if 2 \<le> Version ?hdr \<and> 0 < IndexOffset ?hdr then X else Y) = Y" for X Y :: 'a
      by (rule if_not_P)
    show ?thesis
    proof (cases "buildIndexLegacy (mapped_db bytes D ?cs)")
      case (Inl e)
      then show ?thesis unfolding o b c by simp
    next
      case (Inr db2)
      then have "header db2 = ?hdr"
        using buildIndexLegacy_header [of "mapped_db bytes D ?cs" db2] h by simp
      with Inr show ?thesis unfolding o b c by (simp add: c)
    qed
  qed
next
  have "DecodeHeader (take 36 (take 256 bytes)) = DecodeHeader (take 256 bytes)"
    by (rule DecodeHeader_prefix)
  then show "DecodeHeader (take 36 bytes) = DecodeHeader (take 256 bytes)"
    by simp
qed

lemma Magic_ex_bad: "Magic (DecodeHeader (take 256 ex_bad_magic)) = [0x58, 0x44, 0x42, 0x00]"
  by (simp add: ex_bad_magic_def DecodeHeader_Encode)

lemma header_ex_version7:
  "DecodeHeader (take 256 ex_version7) = \<lparr>Magic = MagicBytes, Version = 7, Dimension = 1,
     RecordCount = 0, IndexOffset = 0, DataOffset = 256, Reserved = replicate 216 0\<rparr>"
  by (simp add: ex_version7_def DecodeHeader_Encode MagicBytes_def)

theorem open_header_checks_witness:
  "256 \<le> length ex_bad_magic \<and> Magic (DecodeHeader (take 256 ex_bad_magic)) \<noteq> MagicBytes
   \<and> Open (Some ex_bad_magic) 1 = Inl ErrInvalidFormat
   \<and> 256 \<le> length ex_version7 \<and> length ex_version7 = 256
   \<and> Magic (DecodeHeader (take 256 ex_version7)) = MagicBytes
   \<and> Dimension (DecodeHeader (take 256 ex_version7)) \<noteq> 4
   \<and> Open (Some ex_version7) 4 = Inl ErrDimensionMismatch
   \<and> Dimension (DecodeHeader (take 256 ex_version7)) = 1
   \<and> Open (Some ex_version7) 1 \<noteq> Inl ErrInvalidFormat
   \<and> \<not> isl (Open (Some ex_version7) 1)
   \<and> 256 \<le> length ex_dup_section \<and> 256 < length ex_dup_section
   \<and> Magic (DecodeHeader (take 256 ex_dup_section)) = MagicBytes
   \<and> Dimension (DecodeHeader (take 256 ex_dup_section)) = 1
   \<and> 2 \<le> Version (DecodeHeader (take 256 ex_dup_section))
   \<and> 0 < IndexOffset (DecodeHeader (take 256 ex_dup_section))
   \<and> Open (Some ex_dup_section) 1
       = map_sum id (\<lambda>db. db\<lparr>dataEndOffset := sint (IndexOffset (DecodeHeader (take 256 ex_dup_section)))\<rparr>)
           (buildIndexFromSection (mapped_db ex_dup_section 1 100))
   \<and> 256 \<le> length ex_dup_legacy \<and> 256 < length ex_dup_legacy
   \<and> Magic (DecodeHeader (take 256 ex_dup_legacy)) = MagicBytes
   \<and> Dimension (DecodeHeader (take 256 ex_dup_legacy)) = 1
   \<and> \<not> (2 \<le> Version (DecodeHeader (take 256 ex_dup_legacy))
          \<and> 0 < IndexOffset (DecodeHeader (take 256 ex_dup_legacy)))
   \<and> Open (Some ex_dup_legacy) 1
       = map_sum id (\<lambda>db. db\<lparr>dataEndOffset := int (length ex_dup_legacy)\<rparr>)
           (buildIndexLegacy (mapped_db ex_dup_legacy 1 100))"
proof -
  let ?o = "\<lparr>LazyLoad = True, CacheSize = 100\<rparr>"
  have b: "256 \<le> length ex_bad_magic" "Magic (DecodeHeader (take 256 ex_bad_magic)) \<noteq> MagicBytes"
    by (simp_all add: Magic_ex_bad MagicBytes_def) (simp add: ex_bad_magic_def)
  have v: "256 \<le> length ex_version7" "length ex_version7 = 256"
      "Magic (DecodeHeader (take 256 ex_version7)) = MagicBytes"
      "Dimension (DecodeHeader (take 256 ex_version7)) \<noteq> 4"
      "Dimension (DecodeHeader (take 256 ex_version7)) = 1"
    by (simp_all add: header_ex_version7) (simp_all add: ex_version7_def)
  have s: "256 \<le> length ex_dup_section" "256 < length ex_dup_section"
      "Magic (DecodeHeader (take 256 ex_dup_section)) = MagicBytes"
      "Dimension (DecodeHeader (take 256 ex_dup_section)) = 1"
      "2 \<le> Version (DecodeHeader (take 256 ex_dup_section))
        \<and> 0 < IndexOffset (DecodeHeader (take 256 ex_dup_section))"
    by (simp_all add: ex_dup_section_def ex_dup_data_def DecodeHeader_Encode) (simp add: MagicBytes_def)
  have l: "256 \<le> length ex_dup_legacy" "256 < length ex_dup_legacy"
      "Magic (DecodeHeader (take 256 ex_dup_legacy)) = MagicBytes"
      "Dimension (DecodeHeader (take 256 ex_dup_legacy)) = 1"
      "\<not> (2 \<le> Version (DecodeHeader (take 256 ex_dup_legacy))
          \<and> 0 < IndexOffset (DecodeHeader (take 256 ex_dup_legacy)))"
    by (simp_all add: ex_dup_legacy_def ex_dup_data_def DecodeHeader_Encode) (simp add: MagicBytes_def)
  have c: "(if CacheSize ?o = 0 then 100 else CacheSize ?o) = 100"
    by simp
  have 1: "Open (Some ex_bad_magic) 1 = Inl ErrInvalidFormat"
    using open_header_checks [OF b(1), of 1 ?o] b unfolding Open_def by blast
  have 2: "Open (Some ex_version7) 4 = Inl ErrDimensionMismatch"
    using open_header_checks [OF v(1), of 4 ?o] v unfolding Open_def by blast
  have 3: "Open (Some ex_version7) 1 \<noteq> Inl ErrInvalidFormat" "\<not> isl (Open (Some ex_version7) 1)"
    using open_header_checks [OF v(1), of 1 ?o] v unfolding Open_def by blast+
  have 4: "Open (Some ex_dup_section) 1
       = map_sum id (\<lambda>db. db\<lparr>dataEndOffset := sint (IndexOffset (DecodeHeader (take 256 ex_dup_section)))\<rparr>)
           (buildIndexFromSection (mapped_db ex_dup_section 1 100))"
  proof -
    from open_header_checks [OF s(1), of 1 ?o] s(2,3,4)
    have "OpenWithOptions (Some ex_dup_section) 1 ?o =
        (if 2 \<le> Version (DecodeHeader (take 256 ex_dup_section))
              \<and> 0 < IndexOffset (DecodeHeader (take 256 ex_dup_section))
         then map_sum id
                (\<lambda>db. db\<lparr>dataEndOffset := sint (IndexOffset (DecodeHeader (take 256 ex_dup_section)))\<rparr>)
                (buildIndexFromSection (mapped_db ex_dup_section 1 100))
         else map_sum id (\<lambda>db. db\<lparr>dataEndOffset := int (length ex_dup_section)\<rparr>)
                (buildIndexLegacy (mapped_db ex_dup_section 1 100)))"
      unfolding c by blast
    then show ?thesis
      unfolding Open_def if_P [OF s(5)] .
  qed
  have 5: "Open (Some ex_dup_legacy) 1
       = map_sum id (\<lambda>db. db\<lparr>dataEndOffset := int (length ex_dup_legacy)\<rparr>)
           (buildIndexLegacy (mapped_db ex_dup_legacy 1 100))"
  proof -
    from open_header_checks [OF l(1), of 1 ?o] l(2,3,4)
    have "OpenWithOptions (Some ex_dup_legacy) 1 ?o =
        (if 2 \<le> Version (DecodeHeader (take 256 ex_dup_legacy))
              \<and> 0 < IndexOffset (DecodeHeader (take 256 ex_dup_legacy))
         then map_sum id
                (\<lambda>db. db\<lparr>dataEndOffset := sint (IndexOffset (DecodeHeader (take 256 ex_dup_legacy)))\<rparr>)
                (buildIndexFromSection (mapped_db ex_dup_legacy 1 100))
         else map_sum id (\<lambda>db. db\<lparr>dataEndOffset := int (length ex_dup_legacy)\<rparr>)
                (buildIndexLegacy (mapped_db ex_dup_legacy 1 100)))"
      unfolding c by blast
    then show ?thesis
      unfolding Open_def if_not_P [OF l(5)] .
  qed
  from 1 2 3 4 5 b v s l show ?thesis
    by blast
qed

theorem open_version_counterexample:
  "Version (DecodeHeader (take 256 ex_version7)) = 7
   \<and> Magic (DecodeHeader (take 256 ex_version7)) = MagicBytes
   \<and> Dimension (DecodeHeader (take 256 ex_version7)) = 1
   \<and> Open (Some ex_version7) 1
       = Inr ((fresh_db 1 100)\<lparr>dbfile := \<lparr>contents = ex_version7, is_open = True\<rparr>,
                 header := DecodeHeader (take 256 ex_version7)\<rparr>)"
  by (simp add: header_ex_version7)
    (simp add: Open_def OpenWithOptions_def open_db_def newDB_def fresh_db_def Let_def
      header_ex_version7, simp add: ex_version7_def)

section \<open>Closing the engine\<close>

lemma pwrite_inside:
  "off \<le> length old \<Longrightarrow> pwrite old off buf = take off old @ buf @ drop (off + length buf) old"
  by (simp add: pwrite_def)

lemma write_entries_ok:
  assumes "is_open f" and "0 \<le> d" and "d \<le> int (length (contents f))"
    and "d + 16 * int (length es) < 2 ^ 63"
  shows "write_entries f d es = (Inr (d + 16 * int (length es)),
           f\<lparr>contents := take (nat d) (contents f) @ concat (map EncodeIndexEntry es)
                 @ drop (nat d + 16 * length es) (contents f)\<rparr>)"
  using assms
proof (induction es arbitrary: f d)
  case Nil
  then show ?case by simp
next
  case (Cons e es)
  let ?c = "contents f"
  let ?c1 = "take (nat d) ?c @ EncodeIndexEntry e @ drop (nat d + 16) ?c"
  let ?f1 = "f\<lparr>contents := ?c1\<rparr>"
  have ne: "EncodeIndexEntry e \<noteq> []"
    by (simp add: EncodeIndexEntry_def PutUint64_def)
  have dl: "nat d \<le> length ?c"
    using Cons.prems by simp
  have w: "WriteAt f (EncodeIndexEntry e) d = Inr ?f1"
    using Cons.prems ne dl by (simp add: WriteAt_def pwrite_inside)
  have l1: "length ?c1 = nat d + 16 + (length ?c - (nat d + 16))"
    using dl by simp
  have "write_entries ?f1 (d + 16) es = (Inr (d + 16 + 16 * int (length es)),
      ?f1\<lparr>contents := take (nat (d + 16)) (contents ?f1) @ concat (map EncodeIndexEntry es)
          @ drop (nat (d + 16) + 16 * length es) (contents ?f1)\<rparr>)"
    by (rule Cons.IH) (use Cons.prems l1 dl in auto)
  moreover have "nat (d + 16) = nat d + 16"
    using Cons.prems by simp
  moreover have "take (nat d + 16) ?c1 = take (nat d) ?c @ EncodeIndexEntry e"
    using dl by simp
  moreover have "drop (nat d + 16 + 16 * length es) ?c1 = drop (nat d + 16 * length (e # es)) ?c"
    using dl by (simp add: ac_simps)
  ultimately show ?case
    using w by (simp add: algebra_simps)
qed

lemma length_concat_entries [simp]: "length (concat (map EncodeIndexEntry es)) = 16 * length es"
  by (induction es) auto

lemma writeIndexSection_ok:
  assumes inv: "db_inv db" and room: "dataEndOffset db + 16 * int (length order) < 2 ^ 63"
  shows "writeIndexSection order db = (Inr (),
           db\<lparr>dbfile := (dbfile db)\<lparr>contents := take (nat (dataEndOffset db)) (contents (dbfile db))
                    @ concat (map EncodeIndexEntry (entries_of order))\<rparr>,
              header := (header db)\<lparr>IndexOffset := word_of_int (dataEndOffset db)\<rparr>\<rparr>)"
proof -
  let ?d = "dataEndOffset db" and ?c = "contents (dbfile db)" and ?es = "entries_of order"
  from inv have op: "is_open (dbfile db)" and d: "HeaderSize \<le> ?d" "?d \<le> int (length ?c)"
    by (auto simp: db_inv_def)
  have len: "length ?es = length order"
    by (simp add: entries_of_def)
  let ?f1 = "(dbfile db)\<lparr>contents := take (nat ?d) ?c @ concat (map EncodeIndexEntry ?es)
      @ drop (nat ?d + 16 * length ?es) ?c\<rparr>"
  have w: "write_entries (dbfile db) ?d ?es = (Inr (?d + 16 * int (length ?es)), ?f1)"
    by (rule write_entries_ok) (use op d room len in auto)
  have n: "nat (?d + 16 * int (length ?es)) = nat ?d + 16 * length ?es"
    using d by (simp add: nat_add_distrib nat_mult_distrib)
  have dl: "nat ?d \<le> length ?c"
    using d by simp
  have t: "Truncate ?f1 (?d + 16 * int (length ?es))
      = Inr (?f1\<lparr>contents := take (nat ?d) ?c @ concat (map EncodeIndexEntry ?es)\<rparr>)"
    using op d room len dl by (simp add: Truncate_def n)
  show ?thesis
    using w t by (simp add: writeIndexSection_def Let_def entries_of_def)
qed

lemma WriteAt_header:
  assumes "is_open f" and "256 \<le> length (contents f)"
  shows "WriteAt f (Encode h) 0 = Inr (f\<lparr>contents := Encode h @ drop 256 (contents f)\<rparr>)"
proof -
  have "Encode h \<noteq> []"
    by (metis length_Encode list.size(3) zero_neq_numeral)
  with assms show ?thesis
    by (simp add: WriteAt_def pwrite_def)
qed

lemma Close_ok:
  assumes inv: "db_inv db" and room: "dataEndOffset db + 16 * int (length order) < 2 ^ 63"
  shows "Close order db =
     (if index db \<noteq> Map.empty \<and> Version (header db) \<ge> 2
      then (Inr (), db\<lparr>dbfile := (dbfile db)\<lparr>contents :=
                Encode ((header db)\<lparr>IndexOffset := word_of_int (dataEndOffset db)\<rparr>)
                  @ drop 256 (take (nat (dataEndOffset db)) (contents (dbfile db)))
                  @ concat (map EncodeIndexEntry (entries_of order)), is_open := False\<rparr>,
              header := (header db)\<lparr>IndexOffset := word_of_int (dataEndOffset db)\<rparr>,
              mmap := unmapped (mmap db)\<rparr>)
      else (Inr (), db\<lparr>dbfile := (dbfile db)\<lparr>contents :=
                Encode (header db) @ drop 256 (contents (dbfile db)), is_open := False\<rparr>,
              mmap := unmapped (mmap db)\<rparr>))"
proof -
  let ?d = "dataEndOffset db" and ?c = "contents (dbfile db)"
  from inv have op: "is_open (dbfile db)" and d: "HeaderSize \<le> ?d" "?d \<le> int (length ?c)"
    and mm: "\<forall>n. mmap db \<noteq> Stale n"
    by (auto simp: db_inv_def split: if_splits)
  have dl: "256 \<le> nat ?d" "nat ?d \<le> length ?c"
    using d by simp_all
  show ?thesis
  proof (cases "index db \<noteq> Map.empty \<and> Version (header db) \<ge> 2")
    case True
    let ?h1 = "(header db)\<lparr>IndexOffset := word_of_int ?d\<rparr>"
    let ?f1 = "(dbfile db)\<lparr>contents := take (nat ?d) ?c @ concat (map EncodeIndexEntry (entries_of order))\<rparr>"
    have w: "WriteAt ?f1 (Encode ?h1) 0 = Inr (?f1\<lparr>contents := Encode ?h1 @ drop 256 (contents ?f1)\<rparr>)"
      by (rule WriteAt_header) (use op dl in simp_all)
    have dr: "drop 256 (contents ?f1) = drop 256 (take (nat ?d) ?c) @ concat (map EncodeIndexEntry (entries_of order))"
      using dl by simp
    from mm have "unmapped (mmap db) = (case mmap db of Mapped n \<Rightarrow> Stale n | x \<Rightarrow> x)"
      by (simp add: unmapped_def)
    with True mm op dl show ?thesis
      unfolding Close_def writeIndexSection_ok [OF inv room]
      by (cases "mmap db") (simp_all add: w file_Close_def unmapped_def min_def)
  next
    case False
    have w: "WriteAt (dbfile db) (Encode (header db)) 0
        = Inr ((dbfile db)\<lparr>contents := Encode (header db) @ drop 256 ?c\<rparr>)"
      by (rule WriteAt_header) (use op dl in simp_all)
    from False have c: "(if index db \<noteq> Map.empty \<and> Version (header db) \<ge> 2 then X else Y) = Y"
      for X Y :: 'a
      by (rule if_not_P)
    from mm op show ?thesis
      unfolding Close_def c
      by (cases "mmap db") (simp_all add: w file_Close_def unmapped_def)
  qed
qed

lemma chunk_concat_entries:
  "i < length es \<Longrightarrow> take 16 (drop (16 * i) (concat (map EncodeIndexEntry es))) = EncodeIndexEntry (es ! i)"
proof (induction es arbitrary: i)
  case Nil
  then show ?case by simp
next
  case (Cons e es)
  show ?case
  proof (cases i)
    case 0
    then show ?thesis by simp
  next
    case (Suc j)
    with Cons show ?thesis by simp
  qed
qed

lemma range_order_nth:
  assumes "range_order m order" and "i < length order"
  shows "m (Hash (entries_of order ! i)) = Some (Offset (entries_of order ! i))"
proof -
  obtain h off where p: "order ! i = (h, off)" by (cases "order ! i")
  with assms(2) have "(h, off) \<in> set order" by (metis nth_mem)
  with assms(1) have "m h = Some off" by (auto simp: range_order_def)
  with p assms(2) show ?thesis by (simp add: entries_of_def)
qed

text \<open>
  C3, as amended. On an engine in the state of an open store, of version 2 or more, whose
  index is not empty, whose header's record count is the number of entries of the index
  and whose index offsets lie in the data section (all of which holds for an engine
  created fresh and filled by inserts), a clean \<open>Close\<close> succeeds and leaves a file
  that ends at \<open>dataEndOffset + 16 * count\<close>, keeps the data section, holds the encoded
  entries of the index one after the other from \<open>dataEndOffset\<close> on, in the order of the
  range, each decoding to a pair of the index, and whose header has \<open>IndexOffset\<close> equal to
  \<open>dataEndOffset\<close> and a record count equal to the number of entries in that tail.
\<close>

theorem Close_writes_index_section:
  assumes inv: "db_inv db"
    and ro: "range_order (index db) order" and ne: "order \<noteq> []"
    and v2: "2 \<le> Version (header db)"
    and room: "dataEndOffset db + 16 * int (length order) < 2 ^ 63"
    and rc: "RecordCount (header db) = word_of_nat (length order)"
    and i3: "\<forall>(h, off) \<in> set order. HeaderSize \<le> off \<and> off < dataEndOffset db"
  shows "\<exists>db'. Close order db = (Inr (), db')
     \<and> length (contents (dbfile db')) = nat (dataEndOffset db) + 16 * length order
     \<and> drop 256 (take (nat (dataEndOffset db)) (contents (dbfile db')))
         = drop 256 (take (nat (dataEndOffset db)) (contents (dbfile db)))
     \<and> (\<forall>i < length order.
           take 16 (drop (nat (dataEndOffset db) + 16 * i) (contents (dbfile db')))
             = EncodeIndexEntry (entries_of order ! i)
           \<and> DecodeIndexEntry (take 16 (drop (nat (dataEndOffset db) + 16 * i) (contents (dbfile db'))))
             = entries_of order ! i
           \<and> index db (Hash (entries_of order ! i)) = Some (Offset (entries_of order ! i)))
     \<and> uint (IndexOffset (header db')) = dataEndOffset db
     \<and> uint (IndexOffset (DecodeHeader (take 256 (contents (dbfile db'))))) = dataEndOffset db
     \<and> unat (RecordCount (DecodeHeader (take 256 (contents (dbfile db'))))) = length order
     \<and> length (contents (dbfile db')) - nat (dataEndOffset db)
         = 16 * unat (RecordCount (DecodeHeader (take 256 (contents (dbfile db')))))"
proof -
  let ?d = "dataEndOffset db" and ?c = "contents (dbfile db)"
  let ?h1 = "(header db)\<lparr>IndexOffset := word_of_int ?d\<rparr>"
  let ?es = "entries_of order"
  let ?c1 = "Encode ?h1 @ drop 256 (take (nat ?d) ?c) @ concat (map EncodeIndexEntry ?es)"
  let ?db1 = "db\<lparr>dbfile := (dbfile db)\<lparr>contents := ?c1, is_open := False\<rparr>, header := ?h1,
      mmap := unmapped (mmap db)\<rparr>"
  from inv have d: "HeaderSize \<le> ?d" "?d \<le> int (length ?c)"
    by (auto simp: db_inv_def)
  then have dl: "256 \<le> nat ?d" "nat ?d \<le> length ?c"
    by simp_all
  have len: "length ?es = length order"
    by (simp add: entries_of_def)
  from ro ne have "index db \<noteq> Map.empty"
    by (cases order) (auto simp: range_order_def)
  with v2 Close_ok [OF inv room] have cl: "Close order db = (Inr (), ?db1)"
    by simp
  have pre: "length (Encode ?h1 @ drop 256 (take (nat ?d) ?c)) = nat ?d"
    using dl by simp
  have L: "length ?c1 = nat ?d + 16 * length order"
    using dl by (simp add: len)
  have data: "drop 256 (take (nat ?d) ?c1) = drop 256 (take (nat ?d) ?c)"
    using dl by simp
  have chunk: "take 16 (drop (nat ?d + 16 * i) ?c1) = EncodeIndexEntry (?es ! i)"
    if "i < length order" for i
  proof -
    have "drop (nat ?d + 16 * i) ((Encode ?h1 @ drop 256 (take (nat ?d) ?c)) @ concat (map EncodeIndexEntry ?es))
        = drop (16 * i) (concat (map EncodeIndexEntry ?es))"
      using pre by (simp del: append_assoc)
    with that show ?thesis
      by (simp add: chunk_concat_entries len)
  qed
  have dec: "DecodeIndexEntry (EncodeIndexEntry (?es ! i)) = ?es ! i" if "i < length order" for i
  proof -
    obtain h off where p: "order ! i = (h, off)" by (cases "order ! i")
    with that have "(h, off) \<in> set order" by (metis nth_mem)
    with i3 d room have "- (2 ^ 63) \<le> off" "off < 2 ^ 63" by auto
    then have "int64 off = off" by (rule int64_id)
    with p that show ?thesis
      by (simp add: DecodeIndexEntry_Encode entries_of_def)
  qed
  have io: "uint (word_of_int ?d :: uint64) = ?d"
    by (rule word_of_int_inverse [OF refl]) (use d room in auto)
  have hd: "DecodeHeader (take 256 ?c1) = ?h1\<lparr>Magic := take 4 (Magic ?h1 @ replicate 4 0),
      Reserved := replicate 216 0\<rparr>"
    by (simp add: DecodeHeader_Encode)
  have "length order < 2 ^ 64"
    using room d by simp
  then have un: "unat (word_of_nat (length order) :: uint64) = length order"
    by (intro of_nat_inverse [OF refl]) simp
  have cc: "contents (dbfile ?db1) = ?c1" and hh: "header ?db1 = ?h1"
    by simp_all
  have 1: "length (contents (dbfile ?db1)) = nat ?d + 16 * length order"
    unfolding cc by (rule L)
  have 2: "drop 256 (take (nat ?d) (contents (dbfile ?db1))) = drop 256 (take (nat ?d) ?c)"
    unfolding cc by (rule data)
  have 3: "\<forall>i < length order.
           take 16 (drop (nat ?d + 16 * i) (contents (dbfile ?db1))) = EncodeIndexEntry (?es ! i)
           \<and> DecodeIndexEntry (take 16 (drop (nat ?d + 16 * i) (contents (dbfile ?db1)))) = ?es ! i
           \<and> index db (Hash (?es ! i)) = Some (Offset (?es ! i))"
    unfolding cc
    by (intro allI impI conjI) (simp_all only: chunk dec range_order_nth [OF ro])
  have 4: "uint (IndexOffset (header ?db1)) = ?d"
    unfolding hh by (simp add: io)
  have 5: "uint (IndexOffset (DecodeHeader (take 256 (contents (dbfile ?db1))))) = ?d"
    unfolding cc hd by (simp add: io)
  have 6: "unat (RecordCount (DecodeHeader (take 256 (contents (dbfile ?db1))))) = length order"
    unfolding cc hd by (simp add: rc un)
  have 7: "length (contents (dbfile ?db1)) - nat ?d
      = 16 * unat (RecordCount (DecodeHeader (take 256 (contents (dbfile ?db1)))))"
    unfolding 1 6 by simp
  from cl 1 2 3 4 5 6 7 show ?thesis
    by blast
qed

lemma range_order_mem: "range_order m order \<Longrightarrow> (h, off) \<in> set order \<Longrightarrow> m h = Some off"
  by (metis map_of_is_SomeI range_order_def)

lemma range_order_length:
  assumes "range_order m order"
  shows "length order = card (dom m)"
proof -
  from assms have "m = map_of order"
    by (simp add: range_order_def)
  then have "dom m = set (map fst order)"
    by (simp add: dom_map_of_conv_image_fst)
  moreover from assms have "card (set (map fst order)) = length (map fst order)"
    by (intro distinct_card) (simp add: range_order_def)
  ultimately show ?thesis by simp
qed

lemma fresh_count_inv: "count_inv (fresh_db dim cs)"
  by (simp add: count_inv_def fresh_db_def NewHeader_def)

lemma Insert_count_inv:
  assumes ok: "Insert k v db = (Inr (), db1)" and inv: "db_inv db" and c: "count_inv db"
  shows "count_inv db1"
proof (cases "index db (HashText k)")
  case (Some off)
  then have "index db (HashText k) \<noteq> None" by simp
  from Insert_noop [OF ok this] c show ?thesis by simp
next
  case None
  note I = Insert_new [OF ok inv None]
  from None have nd: "HashText k \<notin> dom (index db)" by auto
  from c have f: "finite (dom (index db))" by (simp add: count_inv_def)
  from inv have d: "HeaderSize \<le> dataEndOffset db" by (simp add: db_inv_def)
  have "card (dom (index db1)) = Suc (card (dom (index db)))"
    using I f nd by simp
  moreover have "\<forall>h off. index db1 h = Some off \<longrightarrow> HeaderSize \<le> off \<and> off < dataEndOffset db1"
  proof (intro allI impI)
    fix h off assume a: "index db1 h = Some off"
    have g: "dataEndOffset db < dataEndOffset db1"
      using I by simp
    show "HeaderSize \<le> off \<and> off < dataEndOffset db1"
    proof (cases "h = HashText k")
      case True
      with a I have "off = dataEndOffset db" by simp
      with d g show ?thesis by simp
    next
      case False
      with a I have "index db h = Some off" by simp
      with c have "HeaderSize \<le> off \<and> off < dataEndOffset db" by (simp add: count_inv_def)
      with g show ?thesis by simp
    qed
  qed
  ultimately show ?thesis
    using I c f by (simp add: count_inv_def)
qed

lemma insert_all_count_inv:
  assumes "insert_all kvs db = (Inr (), db1)" and "db_inv db" and "all_stored db" and "count_inv db"
  shows "count_inv db1"
  using assms
proof (induction kvs arbitrary: db)
  case Nil
  then show ?case by simp
next
  case (Cons kv kvs)
  obtain k v where kv: "kv = (k, v)" by (cases kv)
  from Cons.prems(1) kv obtain db2 where
    i: "Insert k v db = (Inr (), db2)" and r: "insert_all kvs db2 = (Inr (), db1)"
    by (auto split: prod.splits sum.splits)
  from Insert_keeps [OF i Cons.prems(2,3)] Cons.prems(2,3)
  have "db_inv db2" "all_stored db2" by auto
  with Cons.IH [OF r] Insert_count_inv [OF i Cons.prems(2,4)] show ?case by simp
qed

lemma fresh_lineage_close:
  assumes "OpenWithOptions None D opts = Inr db0" and "insert_all kvs db0 = (Inr (), db)"
    and ro: "range_order (index db) order"
  shows "db_inv db \<and> 2 \<le> Version (header db)
     \<and> RecordCount (header db) = word_of_nat (length order)
     \<and> (\<forall>(h, off) \<in> set order. HeaderSize \<le> off \<and> off < dataEndOffset db)"
proof -
  from assms(1) have db0: "db0 = fresh_db D (if CacheSize opts = 0 then 100 else CacheSize opts)"
    by (simp add: OpenWithOptions_fresh)
  have i0: "db_inv db0" "all_stored db0" "count_inv db0"
    by (simp_all add: db0 fresh_inv fresh_all_stored fresh_count_inv)
  from insert_all_keeps [OF assms(2) i0(1,2)] insert_all_count_inv [OF assms(2) i0]
  have inv: "db_inv db" and c: "count_inv db" by simp_all
  have "\<forall>(h, off) \<in> set order. index db h = Some off"
    using range_order_mem [OF ro] by auto
  with c inv range_order_length [OF ro] show ?thesis
    by (auto simp: count_inv_def)
qed

lemma ex_db_a_contents: "contents (dbfile ex_db_a) = ex_unclosed"
  using ex_db_a_facts by (simp add: fresh_db_def pwrite_def ex_unclosed_def)

lemma ex_db_a_order: "range_order (index ex_db_a) [(HashText ''a'', 256)]"
  using ex_db_a_facts by (simp add: range_order_def fresh_db_def)

theorem Close_writes_index_section_witness:
  "db_inv ex_db_a \<and> range_order (index ex_db_a) [(HashText ''a'', 256)]
   \<and> 2 \<le> Version (header ex_db_a)
   \<and> dataEndOffset ex_db_a = 276
   \<and> RecordCount (header ex_db_a) = 1
   \<and> (\<exists>db'. Close [(HashText ''a'', 256)] ex_db_a = (Inr (), db')
        \<and> length (contents (dbfile db')) = 276 + 16 * 1
        \<and> drop 256 (take 276 (contents (dbfile db'))) = record_bytes (HashText ''a'') [0x3F800000]
        \<and> take 16 (drop 276 (contents (dbfile db')))
            = EncodeIndexEntry \<lparr>Hash = HashText ''a'', Offset = 256\<rparr>
        \<and> DecodeIndexEntry (take 16 (drop 276 (contents (dbfile db'))))
            = \<lparr>Hash = HashText ''a'', Offset = 256\<rparr>
        \<and> uint (IndexOffset (header db')) = 276
        \<and> uint (IndexOffset (DecodeHeader (take 256 (contents (dbfile db'))))) = 276
        \<and> unat (RecordCount (DecodeHeader (take 256 (contents (dbfile db'))))) = 1)"
proof -
  let ?o = "[(HashText ''a'', 256 :: int)]"
  have inv: "db_inv ex_db_a" using ex_db_a_facts by simp
  have d: "dataEndOffset ex_db_a = 276"
    using ex_db_a_facts by (simp add: fresh_db_def)
  have h: "header ex_db_a = (NewHeader 1)\<lparr>RecordCount := 1\<rparr>"
    using ex_db_a_facts by (simp add: fresh_db_def NewHeader_def)
  have v2: "2 \<le> Version (header ex_db_a)" and rc1: "RecordCount (header ex_db_a) = 1"
    by (simp_all add: h NewHeader_def)
  have ne: "?o \<noteq> []" by simp
  have room: "dataEndOffset ex_db_a + 16 * int (length ?o) < 2 ^ 63"
    by (simp add: d)
  have rc: "RecordCount (header ex_db_a) = word_of_nat (length ?o)"
    by (simp add: rc1)
  have i3: "\<forall>(h, off) \<in> set ?o. HeaderSize \<le> off \<and> off < dataEndOffset ex_db_a"
    by (simp add: d)
  have data: "drop 256 (take 276 (contents (dbfile ex_db_a))) = record_bytes (HashText ''a'') [0x3F800000]"
    by (simp add: ex_db_a_contents ex_unclosed_def)
  from Close_writes_index_section [OF inv ex_db_a_order ne v2 room rc i3]
  obtain db' where c: "Close ?o ex_db_a = (Inr (), db')"
    and f: "length (contents (dbfile db')) = nat (dataEndOffset ex_db_a) + 16 * length ?o"
      "drop 256 (take (nat (dataEndOffset ex_db_a)) (contents (dbfile db')))
         = drop 256 (take (nat (dataEndOffset ex_db_a)) (contents (dbfile ex_db_a)))"
      "\<forall>i < length ?o.
           take 16 (drop (nat (dataEndOffset ex_db_a) + 16 * i) (contents (dbfile db')))
             = EncodeIndexEntry (entries_of ?o ! i)
           \<and> DecodeIndexEntry (take 16 (drop (nat (dataEndOffset ex_db_a) + 16 * i) (contents (dbfile db'))))
             = entries_of ?o ! i
           \<and> index ex_db_a (Hash (entries_of ?o ! i)) = Some (Offset (entries_of ?o ! i))"
      "uint (IndexOffset (header db')) = dataEndOffset ex_db_a"
      "uint (IndexOffset (DecodeHeader (take 256 (contents (dbfile db'))))) = dataEndOffset ex_db_a"
      "unat (RecordCount (DecodeHeader (take 256 (contents (dbfile db'))))) = length ?o"
    by blast
  from f(3) have e: "take 16 (drop 276 (contents (dbfile db')))
        = EncodeIndexEntry \<lparr>Hash = HashText ''a'', Offset = 256\<rparr>"
      "DecodeIndexEntry (take 16 (drop 276 (contents (dbfile db'))))
        = \<lparr>Hash = HashText ''a'', Offset = 256\<rparr>"
    by (simp_all add: d entries_of_def DecodeIndexEntry_Encode int64_id)
  from f(1,2,4,5,6) have g: "length (contents (dbfile db')) = 276 + 16 * 1"
      "drop 256 (take 276 (contents (dbfile db'))) = record_bytes (HashText ''a'') [0x3F800000]"
      "uint (IndexOffset (header db')) = 276"
      "uint (IndexOffset (DecodeHeader (take 256 (contents (dbfile db'))))) = 276"
      "unat (RecordCount (DecodeHeader (take 256 (contents (dbfile db'))))) = 1"
    by (simp_all add: d data)
  from inv ex_db_a_order v2 d rc1 c e g show ?thesis
    by blast
qed

lemma header_ex_unclosed: "DecodeHeader (take 256 ex_unclosed) = NewHeader 1"
  by (simp add: ex_unclosed_def DecodeHeader_Encode) (simp add: NewHeader_def MagicBytes_def)

lemma length_ex_unclosed: "length ex_unclosed = 276"
  by (simp add: ex_unclosed_def)

lemma legacy_ex_unclosed:
  "legacy_loop ex_unclosed HeaderSize Map.empty = Inr [HashText ''a'' \<mapsto> 256]"
proof -
  have a: "subslice ex_unclosed 256 264 = Some (PutUint64 (HashText ''a''))"
    by (simp add: ex_unclosed_def record_bytes_def subslice_def)
  have b: "subslice ex_unclosed 264 268 = Some (PutUint32 1)"
    by (simp add: ex_unclosed_def record_bytes_def subslice_def)
  have "legacy_loop ex_unclosed 276 [HashText ''a'' \<mapsto> 256] = Inr [HashText ''a'' \<mapsto> 256]"
    by (simp add: legacy_loop.simps [of _ 276] length_ex_unclosed)
  then show ?thesis
    by (simp add: legacy_loop.simps [of _ 256] length_ex_unclosed a b)
qed

lemma Open_ex_unclosed:
  "Open (Some ex_unclosed) 1 = Inr ((fresh_db 1 100)\<lparr>dbfile := \<lparr>contents = ex_unclosed, is_open = True\<rparr>,
       mmap := Mapped 276, index := [HashText ''a'' \<mapsto> 256], dataEndOffset := 276\<rparr>)"
  by (simp add: Open_def OpenWithOptions_def open_db_def header_ex_unclosed length_ex_unclosed
      buildIndex_def buildIndexLegacy_def mmap_bytes_def legacy_ex_unclosed Let_def
      NewHeader_def MagicBytes_def newDB_def fresh_db_def)

lemma ex_reopened_eq:
  "ex_reopened = (fresh_db 1 100)\<lparr>dbfile := \<lparr>contents = ex_unclosed, is_open = True\<rparr>,
       mmap := Mapped 276, index := [HashText ''a'' \<mapsto> 256], dataEndOffset := 276\<rparr>"
  by (simp add: ex_reopened_def Open_ex_unclosed)

theorem Close_record_count_counterexample:
  "contents (dbfile ex_db_a) = ex_unclosed
   \<and> Open (Some ex_unclosed) 1 = Inr ex_reopened
   \<and> Version (header ex_reopened) = 2
   \<and> index ex_reopened (HashText ''a'') = Some 256
   \<and> range_order (index ex_reopened) [(HashText ''a'', 256)]
   \<and> dataEndOffset ex_reopened = 276
   \<and> Close [(HashText ''a'', 256)] ex_reopened = (Inr (), ex_reclosed)
   \<and> length (contents (dbfile ex_reclosed)) = 276 + 16 * 1
   \<and> DecodeIndexEntry (take 16 (drop 276 (contents (dbfile ex_reclosed))))
       = \<lparr>Hash = HashText ''a'', Offset = 256\<rparr>
   \<and> RecordCount (header ex_reclosed) = 0
   \<and> RecordCount (DecodeHeader (take 256 (contents (dbfile ex_reclosed)))) = 0"
proof -
  let ?o = "[(HashText ''a'', 256 :: int)]"
  have inv: "db_inv ex_reopened"
    by (simp add: ex_reopened_eq db_inv_def fresh_db_def length_ex_unclosed)
  have room: "dataEndOffset ex_reopened + 16 * int (length ?o) < 2 ^ 63"
    by (simp add: ex_reopened_eq)
  have v: "Version (header ex_reopened) = 2" "index ex_reopened (HashText ''a'') = Some 256"
      "dataEndOffset ex_reopened = 276" "index ex_reopened \<noteq> Map.empty"
      "RecordCount (header ex_reopened) = 0"
    by (simp_all add: ex_reopened_eq fresh_db_def NewHeader_def)
  have ro: "range_order (index ex_reopened) ?o"
    by (simp add: ex_reopened_eq range_order_def)
  let ?h1 = "(header ex_reopened)\<lparr>IndexOffset := word_of_int 276\<rparr>"
  let ?c1 = "Encode ?h1 @ drop 256 (take 276 (contents (dbfile ex_reopened)))
      @ concat (map EncodeIndexEntry (entries_of ?o))"
  have cl: "Close ?o ex_reopened = (Inr (), ex_reopened\<lparr>dbfile := (dbfile ex_reopened)\<lparr>contents := ?c1,
      is_open := False\<rparr>, header := ?h1, mmap := unmapped (mmap ex_reopened)\<rparr>)"
    using Close_ok [OF inv room] v by simp
  then have rc: "ex_reclosed = ex_reopened\<lparr>dbfile := (dbfile ex_reopened)\<lparr>contents := ?c1,
      is_open := False\<rparr>, header := ?h1, mmap := unmapped (mmap ex_reopened)\<rparr>"
    by (simp add: ex_reclosed_def)
  have cc: "contents (dbfile ex_reclosed) = ?c1" and hh: "header ex_reclosed = ?h1"
    by (simp_all add: rc)
  have ce: "contents (dbfile ex_reopened) = ex_unclosed"
    by (simp add: ex_reopened_eq fresh_db_def)
  then have d: "length (drop 256 (take 276 (contents (dbfile ex_reopened)))) = 20"
    by (simp add: length_ex_unclosed)
  have 1: "length (contents (dbfile ex_reclosed)) = 276 + 16 * 1"
    unfolding cc by (simp add: ce length_ex_unclosed entries_of_def)
  have "drop 276 ((Encode ?h1 @ drop 256 (take 276 (contents (dbfile ex_reopened))))
      @ concat (map EncodeIndexEntry (entries_of ?o))) = concat (map EncodeIndexEntry (entries_of ?o))"
    by (simp add: ce length_ex_unclosed)
  then have 2: "DecodeIndexEntry (take 16 (drop 276 (contents (dbfile ex_reclosed))))
       = \<lparr>Hash = HashText ''a'', Offset = 256\<rparr>"
    unfolding cc by (simp add: entries_of_def DecodeIndexEntry_Encode int64_id)
  have 3: "RecordCount (header ex_reclosed) = 0"
    unfolding hh by (simp add: v)
  have 4: "RecordCount (DecodeHeader (take 256 (contents (dbfile ex_reclosed)))) = 0"
    unfolding cc by (simp add: DecodeHeader_Encode v)
  from ex_db_a_contents Open_ex_unclosed v ro cl 1 2 3 4 show ?thesis
    by (simp add: ex_reopened_eq [symmetric] ex_reclosed_def)
qed

section \<open>Operations after Close\<close>












section \<open>The LRU cache\<close>

lemma run_ops_snoc: "run_ops (ops @ [op]) c = apply_op op (run_ops ops c)"
  by (simp add: run_ops_def)

lemma snd_touch_fold: "snd (foldl touch_step (ts, c) ops) = run_ops ops c"
  by (induction ops arbitrary: ts c) (simp_all add: run_ops_def touch_step_def)

lemma touches_snoc:
  "touches (ops @ [op]) c =
     (if touched op (run_ops ops c) then key_of op # touches ops c else touches ops c)"
  by (simp add: touches_def touch_step_def snd_touch_fold)

lemma last_access_snoc:
  "last_access (ops @ [op]) k = (if key_of op = k then Suc (length ops) else last_access ops k)"
  by (simp add: last_access_def)

lemma last_access_le: "last_access ops k \<le> length ops"
  unfolding last_access_def using length_dropWhile_le [of _ "rev ops"] by simp

lemma distinct_distinct_keys: "distinct (distinct_keys ks)"
  by (induction ks) (simp_all add: distinct_removeAll)

lemma set_distinct_keys: "set (distinct_keys ks) = set ks"
  by (induction ks) auto

lemma keys_remove1:
  "distinct (map fst L) \<Longrightarrow> map_of L h = Some v
   \<Longrightarrow> map fst (remove1 (h, v) L) = remove1 h (map fst L)"
proof (induction L)
  case Nil
  then show ?case by simp
next
  case (Cons p L)
  obtain k w where p: "p = (k, w)" by (cases p)
  show ?case
  proof (cases "k = h")
    case True
    then show ?thesis using Cons.prems p by simp
  next
    case False
    then show ?thesis using Cons p by simp
  qed
qed

lemma map_of_keys: "(map_of L h = None) = (h \<notin> set (map fst L))"
  by (simp add: map_of_eq_None_iff)

text \<open>What one operation does to the list of keys of a cache with distinct keys.\<close>

lemma keys_hit:
  assumes "distinct (cache_keys c)" and "h \<in> set (cache_keys c)"
  shows "cache_keys (snd (LRUCache_Get h c)) = h # remove1 h (cache_keys c)"
    and "cache_keys (LRUCache_Put h v c) = h # remove1 h (cache_keys c)"
    and "fst (LRUCache_Get h c) \<noteq> None"
proof -
  from assms(2) obtain old where old: "map_of (lru c) h = Some old"
    using map_of_keys [of "lru c" h] by (auto simp: cache_keys_def)
  from keys_remove1 [OF _ old] assms(1)
  have r: "map fst (remove1 (h, old) (lru c)) = remove1 h (map fst (lru c))"
    by (simp add: cache_keys_def)
  show "cache_keys (snd (LRUCache_Get h c)) = h # remove1 h (cache_keys c)"
    using old r by (simp add: LRUCache_Get_def cache_keys_def)
  show "cache_keys (LRUCache_Put h v c) = h # remove1 h (cache_keys c)"
    using old r by (simp add: LRUCache_Put_def cache_keys_def)
  show "fst (LRUCache_Get h c) \<noteq> None"
    using old by (simp add: LRUCache_Get_def)
qed

lemma keys_miss:
  assumes "h \<notin> set (cache_keys c)"
  shows "snd (LRUCache_Get h c) = c" and "fst (LRUCache_Get h c) = None"
    and "cache_keys (LRUCache_Put h v c) =
           (if int (length (cache_keys c)) + 1 > capacity c
            then butlast (h # cache_keys c) else h # cache_keys c)"
proof -
  from assms have n: "map_of (lru c) h = None"
    using map_of_keys [of "lru c" h] by (simp add: cache_keys_def)
  show "snd (LRUCache_Get h c) = c" and "fst (LRUCache_Get h c) = None"
    using n by (simp_all add: LRUCache_Get_def)
  show "cache_keys (LRUCache_Put h v c) =
           (if int (length (cache_keys c)) + 1 > capacity c
            then butlast (h # cache_keys c) else h # cache_keys c)"
    using n by (simp add: LRUCache_Put_def cache_keys_def evict_def Let_def map_butlast)
qed

lemma capacity_apply_op [simp]: "capacity (apply_op op c) = capacity c"
  by (cases op) (simp_all add: LRUCache_Put_def LRUCache_Get_def evict_def Let_def
      split: option.splits)

lemma capacity_run_ops [simp]: "capacity (run_ops ops c) = capacity c"
  by (induction ops rule: rev_induct) (simp_all add: run_ops_snoc, simp add: run_ops_def)

lemma remove1_take:
  "h \<in> set (take n D) \<Longrightarrow> remove1 h (take n D) = take (n - 1) (remove1 h D)"
proof (induction D arbitrary: n)
  case Nil
  then show ?case by simp
next
  case (Cons d D)
  then obtain m where n: "n = Suc m" by (cases n) auto
  show ?case
  proof (cases "h = d")
    case True
    then show ?thesis using n by simp
  next
    case False
    with Cons.prems n have "h \<in> set (take m D)" by simp
    from Cons.IH [OF this] False n Cons.prems show ?thesis
      by (cases m) auto
  qed
qed

lemma take_removeAll:
  "h \<notin> set (take n D) \<Longrightarrow> take n (removeAll h D) = take n D"
proof (induction D arbitrary: n)
  case Nil
  then show ?case by simp
next
  case (Cons d D)
  then show ?case by (cases n) auto
qed

lemma butlast_take_full: "length K = n \<Longrightarrow> butlast (h # K) = take n (h # K)"
  by (metis butlast_conv_take length_Cons diff_Suc_1)

text \<open>The list of keys, front first, is the list of the most recently touched keys.\<close>

lemma keys_most_recent:
  assumes C: "1 \<le> C"
  shows "cache_keys (run_ops ops (NewLRUCache C))
           = most_recent (nat C) (touches ops (NewLRUCache C))"
proof (induction ops rule: rev_induct)
  case Nil
  show ?case
    by (simp add: run_ops_def touches_def most_recent_def cache_keys_def NewLRUCache_def)
next
  case (snoc op ops)
  define c where "c = run_ops ops (NewLRUCache C)"
  define D where "D = distinct_keys (touches ops (NewLRUCache C))"
  define n where "n = nat C"
  have K: "cache_keys c = take n D"
    using snoc by (simp add: c_def D_def n_def most_recent_def)
  have dD: "distinct D" by (simp add: D_def distinct_distinct_keys)
  have dK: "distinct (cache_keys c)" using K dD by simp
  have cap: "capacity c = int n" using C by (simp add: c_def n_def NewLRUCache_def)
  have n1: "1 \<le> n" using C by (simp add: n_def)
  have lenK: "length (cache_keys c) \<le> n" using K by simp
  have hitcase: "h # remove1 h (cache_keys c) = take n (h # removeAll h D)"
    if "h \<in> set (cache_keys c)" for h
  proof -
    from that K have "h \<in> set (take n D)" by simp
    from remove1_take [OF this] have "remove1 h (take n D) = take (n - 1) (remove1 h D)" .
    moreover have "removeAll h D = remove1 h D" using dD by (simp add: distinct_remove1_removeAll)
    ultimately show ?thesis using K n1 by (cases n) simp_all
  qed
  have newcase: "cache_keys (LRUCache_Put h v c) = take n (h # removeAll h D)"
    if "h \<notin> set (cache_keys c)" for h v
  proof -
    from that K have "h \<notin> set (take n D)" by simp
    then have "h \<notin> set (take (n - 1) D)"
      using set_take_subset_set_take [of "n - 1" n D] by auto
    from take_removeAll [OF this] have t: "take (n - 1) (removeAll h D) = take (n - 1) D" .
    have r: "take n (h # removeAll h D) = h # take (n - 1) D"
      using n1 t by (cases n) simp_all
    show ?thesis
    proof (cases "length (cache_keys c) = n")
      case True
      then have "cache_keys (LRUCache_Put h v c) = butlast (h # cache_keys c)"
        using keys_miss(3) [OF that] cap by simp
      also have "\<dots> = take n (h # cache_keys c)" using True by (rule butlast_take_full)
      also have "\<dots> = h # take (n - 1) (take n D)" using n1 K by (cases n) simp_all
      also have "\<dots> = h # take (n - 1) D" by (simp add: min_def)
      finally show ?thesis using r by simp
    next
      case False
      with lenK have lt: "length (cache_keys c) < n" by simp
      then have "cache_keys (LRUCache_Put h v c) = h # cache_keys c"
        using keys_miss(3) [OF that] cap by simp
      moreover have "length D < n" using lt K by (simp add: min_def split: if_splits)
      ultimately show ?thesis using r K by simp
    qed
  qed
  show ?case
  proof (cases op)
    case (OpPut h v)
    have "cache_keys (LRUCache_Put h v c) = take n (h # removeAll h D)"
    proof (cases "h \<in> set (cache_keys c)")
      case True
      then show ?thesis using keys_hit(2) [OF dK True] hitcase by simp
    next
      case False
      then show ?thesis by (rule newcase)
    qed
    then show ?thesis
      using OpPut
      by (simp add: run_ops_snoc touches_snoc most_recent_def c_def [symmetric]
          D_def [symmetric] n_def [symmetric])
  next
    case (OpGet h)
    show ?thesis
    proof (cases "h \<in> set (cache_keys c)")
      case True
      then show ?thesis
        using OpGet keys_hit(1,3) [OF dK True] hitcase [OF True]
        by (simp add: run_ops_snoc touches_snoc most_recent_def c_def [symmetric]
            D_def [symmetric] n_def [symmetric])
    next
      case False
      then show ?thesis
        using OpGet keys_miss(1,2) [OF False] K
        by (simp add: run_ops_snoc touches_snoc most_recent_def c_def [symmetric]
            D_def [symmetric] n_def [symmetric])
    qed
  qed
qed

text \<open>
  The keys are kept in the order of their most recent operation: nearer the front, more
  recent.
\<close>

lemma keys_ordered:
  assumes C: "1 \<le> C"
  shows "sorted_wrt (\<lambda>a b. last_access ops b < last_access ops a)
           (cache_keys (run_ops ops (NewLRUCache C)))"
proof (induction ops rule: rev_induct)
  case Nil
  show ?case by (simp add: run_ops_def cache_keys_def NewLRUCache_def)
next
  case (snoc op ops)
  define c where "c = run_ops ops (NewLRUCache C)"
  define h where "h = key_of op"
  have dK: "distinct (cache_keys c)"
    using keys_most_recent [OF C, of ops]
    by (simp add: c_def most_recent_def distinct_distinct_keys)
  have la: "last_access (ops @ [op]) k = (if k = h then Suc (length ops) else last_access ops k)"
    for k
    by (auto simp: last_access_snoc h_def)
  have S: "sorted_wrt (\<lambda>a b. last_access ops b < last_access ops a) (cache_keys c)"
    using snoc by (simp add: c_def)
  have front: "sorted_wrt (\<lambda>a b. last_access (ops @ [op]) b < last_access (ops @ [op]) a) (h # K)"
    if "sorted_wrt (\<lambda>a b. last_access ops b < last_access ops a) K" and "h \<notin> set K" for K
  proof -
    have "sorted_wrt (\<lambda>a b. last_access (ops @ [op]) b < last_access (ops @ [op]) a) K"
      using that by (induction K) (auto simp: la)
    moreover have "\<forall>k\<in>set K. last_access (ops @ [op]) k < last_access (ops @ [op]) h"
      using that(2) last_access_le [of ops] by (auto simp: la less_Suc_eq_le)
    ultimately show ?thesis by simp
  qed
  have same: "sorted_wrt (\<lambda>a b. last_access (ops @ [op]) b < last_access (ops @ [op]) a) (cache_keys c)"
    if "h \<notin> set (cache_keys c)"
    using front [OF S that] by simp
  have moved: "sorted_wrt (\<lambda>a b. last_access (ops @ [op]) b < last_access (ops @ [op]) a)
                 (h # remove1 h (cache_keys c))"
  proof (rule front)
    have "remove1 h (cache_keys c) = filter (\<lambda>y. h \<noteq> y) (cache_keys c)"
      using dK by (simp add: distinct_remove1_removeAll removeAll_filter_not_eq)
    then show "sorted_wrt (\<lambda>a b. last_access ops b < last_access ops a) (remove1 h (cache_keys c))"
      using S by (simp add: sorted_wrt_filter)
    show "h \<notin> set (remove1 h (cache_keys c))" using dK by simp
  qed
  have new: "sorted_wrt (\<lambda>a b. last_access (ops @ [op]) b < last_access (ops @ [op]) a)
               (cache_keys (LRUCache_Put h v c))"
    if "h \<notin> set (cache_keys c)" for v
  proof -
    have f: "sorted_wrt (\<lambda>a b. last_access (ops @ [op]) b < last_access (ops @ [op]) a)
               (h # cache_keys c)"
      using front [OF S that] .
    have "sorted_wrt (\<lambda>a b. last_access (ops @ [op]) b < last_access (ops @ [op]) a)
               (butlast (h # cache_keys c))"
      using sorted_wrt_take [OF f, of "length (cache_keys c)"]
      by (simp add: butlast_conv_take)
    with f show ?thesis using keys_miss(3) [OF that] by simp
  qed
  show ?case
  proof (cases op)
    case (OpPut g v)
    then have g: "g = h" by (simp add: h_def)
    show ?thesis
    proof (cases "h \<in> set (cache_keys c)")
      case True
      then show ?thesis
        using OpPut g keys_hit(2) [OF dK True] moved
        by (simp add: run_ops_snoc c_def [symmetric])
    next
      case False
      then show ?thesis
        using OpPut g new [OF False]
        by (simp add: run_ops_snoc c_def [symmetric])
    qed
  next
    case (OpGet g)
    then have g: "g = h" by (simp add: h_def)
    show ?thesis
    proof (cases "h \<in> set (cache_keys c)")
      case True
      then show ?thesis
        using OpGet g keys_hit(1) [OF dK True] moved
        by (simp add: run_ops_snoc c_def [symmetric])
    next
      case False
      then show ?thesis
        using OpGet g keys_miss(1) [OF False] same [OF False]
        by (simp add: run_ops_snoc c_def [symmetric])
    qed
  qed
qed

text \<open>An operation removes at most the last key of the list, and only a \<open>put\<close> of a new key does.\<close>

lemma evicted_is_last:
  assumes d: "distinct (cache_keys c)" and k: "k \<in> set (cache_keys c)"
    and gone: "k \<notin> set (cache_keys (apply_op op c))"
  shows "k = last (cache_keys c) \<and> (\<exists>v. op = OpPut (key_of op) v)
         \<and> key_of op \<notin> set (cache_keys c)
         \<and> cache_keys (apply_op op c) = key_of op # butlast (cache_keys c)"
proof (cases "key_of op \<in> set (cache_keys c)")
  case True
  have "set (cache_keys (apply_op op c)) = set (cache_keys c)"
    using keys_hit(1,2) [OF d True] True d by (cases op) auto
  with k gone show ?thesis by simp
next
  case False
  show ?thesis
  proof (cases op)
    case (OpGet h)
    then show ?thesis using keys_miss(1) [of h c] False k gone by simp
  next
    case (OpPut h v)
    then have h: "key_of op = h" by simp
    have ne: "cache_keys c \<noteq> []" using k by auto
    have K: "cache_keys (apply_op op c) =
           (if int (length (cache_keys c)) + 1 > capacity c
            then butlast (h # cache_keys c) else h # cache_keys c)"
      using keys_miss(3) [of h c v] False OpPut by simp
    from K k gone have b: "cache_keys (apply_op op c) = h # butlast (cache_keys c)"
      using ne by (auto split: if_splits)
    with gone have "k \<notin> set (butlast (cache_keys c))" by simp
    moreover have "cache_keys c = butlast (cache_keys c) @ [last (cache_keys c)]"
      using ne by simp
    ultimately have "k = last (cache_keys c)"
      using k by (metis Un_iff empty_iff empty_set set_ConsD set_append)
    then show ?thesis using OpPut False b by simp
  qed
qed

text \<open>
  C9. For every sequence of \<open>put\<close> and \<open>get\<close> operations on a fresh cache of capacity
  \<open>C \<ge> 1\<close>, the keys present afterwards, front first, are the \<open>C\<close> most recently touched
  distinct keys (all of them if there are fewer than \<open>C\<close>), where a \<open>put\<close> and a \<open>get\<close> that
  hits touch their key; so the set of the present keys is the set of those keys, and the
  cache never holds more than \<open>C\<close> entries. Whenever a further operation evicts a key
  (the key is present before the operation and absent after it), the operation is a
  \<open>put\<close> of a key that was absent, which is present afterwards, and the evicted key is
  the one entry at the back of the list: of all the keys that were present, it is the
  one whose most recent \<open>get\<close> or \<open>put\<close> is the oldest.
\<close>

theorem lru_keeps_most_recent:
  assumes C: "1 \<le> C"
  shows "cache_keys (run_ops ops (NewLRUCache C))
           = most_recent (nat C) (touches ops (NewLRUCache C))
     \<and> set (cache_keys (run_ops ops (NewLRUCache C)))
           = set (most_recent (nat C) (touches ops (NewLRUCache C)))
     \<and> (length (distinct_keys (touches ops (NewLRUCache C))) \<le> nat C
          \<longrightarrow> set (cache_keys (run_ops ops (NewLRUCache C))) = set (touches ops (NewLRUCache C)))
     \<and> distinct (cache_keys (run_ops ops (NewLRUCache C)))
     \<and> LRUCache_Len (run_ops ops (NewLRUCache C)) \<le> C
     \<and> (\<forall>k. k \<in> set (cache_keys (run_ops ops (NewLRUCache C)))
              \<and> k \<notin> set (cache_keys (run_ops (ops @ [op]) (NewLRUCache C)))
          \<longrightarrow> (\<exists>v. op = OpPut (key_of op) v)
              \<and> key_of op \<notin> set (cache_keys (run_ops ops (NewLRUCache C)))
              \<and> key_of op \<in> set (cache_keys (run_ops (ops @ [op]) (NewLRUCache C)))
              \<and> set (cache_keys (run_ops (ops @ [op]) (NewLRUCache C)))
                   = insert (key_of op) (set (cache_keys (run_ops ops (NewLRUCache C))) - {k})
              \<and> k = last (cache_keys (run_ops ops (NewLRUCache C)))
              \<and> (\<forall>k'\<in>set (cache_keys (run_ops ops (NewLRUCache C))).
                    k' \<noteq> k \<longrightarrow> last_access ops k < last_access ops k'))"
proof -
  define c where "c = run_ops ops (NewLRUCache C)"
  define ts where "ts = touches ops (NewLRUCache C)"
  have K: "cache_keys c = most_recent (nat C) ts"
    unfolding c_def ts_def using C by (rule keys_most_recent)
  have d: "distinct (cache_keys c)"
    using K by (simp add: most_recent_def distinct_distinct_keys)
  have len: "LRUCache_Len c \<le> C"
  proof -
    have "length (cache_keys c) \<le> nat C" using K by (simp add: most_recent_def)
    then show ?thesis using C by (simp add: LRUCache_Len_def cache_keys_def)
  qed
  have all: "set (cache_keys c) = set ts" if "length (distinct_keys ts) \<le> nat C"
    using K that set_distinct_keys [of ts] by (simp add: most_recent_def)
  have S: "sorted_wrt (\<lambda>a b. last_access ops b < last_access ops a) (cache_keys c)"
    unfolding c_def using C by (rule keys_ordered)
  have ev: "(\<exists>v. op = OpPut (key_of op) v)
              \<and> key_of op \<notin> set (cache_keys c)
              \<and> key_of op \<in> set (cache_keys (apply_op op c))
              \<and> set (cache_keys (apply_op op c)) = insert (key_of op) (set (cache_keys c) - {k})
              \<and> k = last (cache_keys c)
              \<and> (\<forall>k'\<in>set (cache_keys c). k' \<noteq> k \<longrightarrow> last_access ops k < last_access ops k')"
    if k: "k \<in> set (cache_keys c)" and gone: "k \<notin> set (cache_keys (apply_op op c))" for k
  proof -
    from evicted_is_last [OF d k gone]
    have l: "k = last (cache_keys c)" and p: "\<exists>v. op = OpPut (key_of op) v"
      and n: "key_of op \<notin> set (cache_keys c)"
      and b: "cache_keys (apply_op op c) = key_of op # butlast (cache_keys c)"
      by simp_all
    have ne: "cache_keys c \<noteq> []" using k by auto
    then have sp: "cache_keys c = butlast (cache_keys c) @ [k]" using l by simp
    have db: "k \<notin> set (butlast (cache_keys c))"
      using d sp by (metis distinct_append disjoint_iff list.set_intros(1))
    have sb: "set (butlast (cache_keys c)) = set (cache_keys c) - {k}"
    proof -
      have "set (cache_keys c) = insert k (set (butlast (cache_keys c)))"
        using sp by (metis Un_insert_right append_Nil2 list.simps(15) set_append)
      with db show ?thesis by auto
    qed
    have o: "\<forall>k'\<in>set (butlast (cache_keys c)). last_access ops k < last_access ops k'"
      using S sp by (metis list.set_intros(1) sorted_wrt_append)
    show ?thesis using l p n b sb o by auto
  qed
  show ?thesis
    unfolding run_ops_snoc c_def [symmetric] ts_def [symmetric]
  proof (intro conjI allI impI)
    show "cache_keys c = most_recent (nat C) ts" by (rule K)
    show "set (cache_keys c) = set (most_recent (nat C) ts)" using K by simp
    show "set (cache_keys c) = set ts" if "length (distinct_keys ts) \<le> nat C"
      using that by (rule all)
    show "distinct (cache_keys c)" by (rule d)
    show "LRUCache_Len c \<le> C" by (rule len)
  next
    fix k assume "k \<in> set (cache_keys c) \<and> k \<notin> set (cache_keys (apply_op op c))"
    then have kin: "k \<in> set (cache_keys c)" and kout: "k \<notin> set (cache_keys (apply_op op c))"
      by simp_all
    have E: "(\<exists>v. op = OpPut (key_of op) v)
              \<and> key_of op \<notin> set (cache_keys c)
              \<and> key_of op \<in> set (cache_keys (apply_op op c))
              \<and> set (cache_keys (apply_op op c)) = insert (key_of op) (set (cache_keys c) - {k})
              \<and> k = last (cache_keys c)
              \<and> (\<forall>k'\<in>set (cache_keys c). k' \<noteq> k \<longrightarrow> last_access ops k < last_access ops k')"
      using kin kout by (rule ev)
    show "\<exists>v. op = OpPut (key_of op) v" using E by simp
    show "key_of op \<notin> set (cache_keys c)" using E by simp
    show "key_of op \<in> set (cache_keys (apply_op op c))" using E by simp
    show "set (cache_keys (apply_op op c)) = insert (key_of op) (set (cache_keys c) - {k})"
      using E by simp
    show "k = last (cache_keys c)" using E by simp
    show "\<forall>k'\<in>set (cache_keys c). k' \<noteq> k \<longrightarrow> last_access ops k < last_access ops k'"
      using E by (elim conjE)
  qed
qed

theorem lru_keeps_most_recent_witness:
  "(1::int) \<le> 2
   \<and> cache_keys (run_ops [OpPut 1 0, OpPut 2 1, OpGet 1, OpPut 3 2] (NewLRUCache 2)) = [3, 1]
   \<and> most_recent (nat 2) (touches [OpPut 1 0, OpPut 2 1, OpGet 1, OpPut 3 2] (NewLRUCache 2)) = [3, 1]
   \<and> cache_keys (run_ops [OpPut 1 0, OpPut 2 1, OpGet 1] (NewLRUCache 2)) = [1, 2]
   \<and> 2 \<in> set (cache_keys (run_ops [OpPut 1 0, OpPut 2 1, OpGet 1] (NewLRUCache 2)))
   \<and> 2 \<notin> set (cache_keys (run_ops ([OpPut 1 0, OpPut 2 1, OpGet 1] @ [OpPut 3 2]) (NewLRUCache 2)))
   \<and> 2 = last (cache_keys (run_ops [OpPut 1 0, OpPut 2 1, OpGet 1] (NewLRUCache 2)))
   \<and> last_access [OpPut 1 0, OpPut 2 1, OpGet 1] 2 < last_access [OpPut 1 0, OpPut 2 1, OpGet 1] 1
   \<and> last_access [OpPut 1 0, OpPut 2 1, OpGet 1] 2 = 2
   \<and> last_access [OpPut 1 0, OpPut 2 1, OpGet 1] 1 = 3
   \<and> fst (LRUCache_Get 2 (run_ops [OpPut 1 0, OpPut 2 1, OpGet 1, OpPut 3 2] (NewLRUCache 2))) = None"
proof -
  have C: "(1::int) \<le> 2" by simp
  have a: "cache_keys (run_ops [OpPut 1 0, OpPut 2 1, OpGet 1] (NewLRUCache 2)) = [1, 2]"
    by (simp add: run_ops_def cache_keys_def NewLRUCache_def LRUCache_Put_def LRUCache_Get_def
        evict_def Let_def)
  have b: "cache_keys (run_ops ([OpPut 1 0, OpPut 2 1, OpGet 1] @ [OpPut 3 2]) (NewLRUCache 2)) = [3, 1]"
    by (simp add: run_ops_def cache_keys_def NewLRUCache_def LRUCache_Put_def LRUCache_Get_def
        evict_def Let_def)
  have g: "fst (LRUCache_Get 2 (run_ops [OpPut 1 0, OpPut 2 1, OpGet 1, OpPut 3 2] (NewLRUCache 2))) = None"
    by (simp add: run_ops_def cache_keys_def NewLRUCache_def LRUCache_Put_def LRUCache_Get_def
        evict_def Let_def)
  have l: "last_access [OpPut 1 0, OpPut 2 1, OpGet 1] 2 = 2"
      "last_access [OpPut 1 0, OpPut 2 1, OpGet 1] 1 = 3"
    by (simp_all add: last_access_def)
  note T1 = lru_keeps_most_recent [OF C, of "[OpPut 1 0, OpPut 2 1, OpGet 1, OpPut 3 2]" "OpGet 0"]
  note T2 = lru_keeps_most_recent [OF C, of "[OpPut 1 0, OpPut 2 1, OpGet 1]" "OpPut 3 2"]
  have m: "most_recent (nat 2) (touches [OpPut 1 0, OpPut 2 1, OpGet 1, OpPut 3 2] (NewLRUCache 2)) = [3, 1]"
    using T1 b by simp
  have e: "2 = last (cache_keys (run_ops [OpPut 1 0, OpPut 2 1, OpGet 1] (NewLRUCache 2)))
      \<and> last_access [OpPut 1 0, OpPut 2 1, OpGet 1] 2 < last_access [OpPut 1 0, OpPut 2 1, OpGet 1] 1"
    using T2 [THEN conjunct2, THEN conjunct2, THEN conjunct2, THEN conjunct2, THEN conjunct2,
        THEN spec, of 2]
    unfolding a b by simp
  from C a b g l m e show ?thesis by simp
qed

section \<open>Arrays handed to the caller\<close>

lemma remap_cache: "cache (snd (remap db)) = cache db"
  by (simp add: remap_def Let_def split: mmap_state.splits sum.splits)

lemma Insert_cache: "cache (snd (Insert k v db)) = cache db"
proof -
  have r: "cache (snd (case remap d of (Inl e, d1) \<Rightarrow> (Inl e, d1) | (Inr u, d1) \<Rightarrow> (Inr (), d1)))
             = cache d" for d
    using remap_cache [of d] by (cases "remap d") (auto split: sum.splits)
  show ?thesis
    by (simp add: Insert_def Let_def r remap_cache split: sum.splits prod.splits option.splits)
qed

lemma Put_new_front:
  assumes "map_of (lru c) h = None" and "1 \<le> capacity c"
  shows "map_of (lru (LRUCache_Put h a c)) h = Some a"
proof (cases "lru c")
  case Nil
  then show ?thesis using assms by (simp add: LRUCache_Put_def evict_def Let_def)
next
  case (Cons p L)
  then show ?thesis using assms by (simp add: LRUCache_Put_def evict_def Let_def)
qed

lemma Get_hit_again:
  assumes "map_of (lru (cache db)) (HashText k) = Some a"
  shows "fst (Get k (db, hp)) = Inr a" and "snd (snd (Get k (db, hp))) = hp"
    and "map_of (lru (cache (fst (snd (Get k (db, hp)))))) (HashText k) = Some a"
  using assms by (simp_all add: Get_hit LRUCache_Get_def)

text \<open>
  C10, as amended. \<open>Get\<close> hands the caller the very array that the LRU holds, not a copy
  of it. For a stored key and a cache of capacity at least 1: on a miss \<open>Get\<close> allocates a
  new array, which no entry of the cache and no earlier reference names, fills it with
  the vector decoded from the mapping, leaves the existing arrays as they are, puts this
  array into the LRU and returns it; on a hit it returns the array of the LRU entry and
  allocates nothing. In both cases the array returned is the one the LRU holds for the
  key afterwards, and the next \<open>Get\<close> of the key returns the same array again, whatever
  the caller has written to it in between. The arrays of the LRU are arrays of their
  own, filled from the mapping when they were read: \<open>Insert\<close>, which writes the file and
  remaps, changes no entry of the LRU.
\<close>

theorem Get_returns_cached_array:
  assumes inv: "db_inv db" and st: "stored db (HashText k) v" and ok: "cache_ok db hp"
    and cap: "1 \<le> capacity (cache db)"
  shows "\<exists>a db1 hp1. Get k (db, hp) = (Inr a, db1, hp1)
     \<and> a < length hp1 \<and> hp1 ! a = v
     \<and> map_of (lru (cache db1)) (HashText k) = Some a
     \<and> take (length hp) hp1 = hp
     \<and> (map_of (lru (cache db)) (HashText k) = None
          \<longrightarrow> a = length hp \<and> hp1 = hp @ [v] \<and> a \<notin> snd ` set (lru (cache db)))
     \<and> (\<forall>a'. map_of (lru (cache db)) (HashText k) = Some a' \<longrightarrow> a = a' \<and> hp1 = hp)
     \<and> (\<forall>hp2. fst (Get k (db1, hp2)) = Inr a \<and> snd (snd (Get k (db1, hp2))) = hp2)
     \<and> (\<forall>k' v'. cache (snd (Insert k' v' db1)) = cache db1)"
proof (cases "map_of (lru (cache db)) (HashText k)")
  case None
  let ?db1 = "db\<lparr>cache := LRUCache_Put (HashText k) (length hp) (cache db)\<rparr>"
  have G: "Get k (db, hp) = (Inr (length hp), ?db1, hp @ [v])"
    using inv st None by (rule Get_miss)
  have m: "map_of (lru (cache ?db1)) (HashText k) = Some (length hp)"
    using Put_new_front [OF None cap] by simp
  have fresh: "length hp \<notin> snd ` set (lru (cache db))"
    using ok by (auto simp: cache_ok_def)
  have again: "fst (Get k (?db1, hp2)) = Inr (length hp) \<and> snd (snd (Get k (?db1, hp2))) = hp2"
    for hp2
    using Get_hit_again(1,2) [OF m] by simp
  show ?thesis
    using G m fresh again None Insert_cache by (intro exI [of _ "length hp"] exI [of _ ?db1]
        exI [of _ "hp @ [v]"]) simp
next
  case (Some a)
  let ?db1 = "db\<lparr>cache := snd (LRUCache_Get (HashText k) (cache db))\<rparr>"
  have G: "Get k (db, hp) = (Inr a, ?db1, hp)"
    using Some by (rule Get_hit)
  have "(HashText k, a) \<in> set (lru (cache db))" using Some by (rule map_of_SomeD)
  with ok have a: "a < length hp" and sa: "stored db (HashText k) (hp ! a)"
    by (auto simp: cache_ok_def)
  have v: "hp ! a = v" using sa st by (rule stored_unique)
  have m: "map_of (lru (cache ?db1)) (HashText k) = Some a"
    using Get_hit_again(3) [OF Some, of hp] G by simp
  have again: "fst (Get k (?db1, hp2)) = Inr a \<and> snd (snd (Get k (?db1, hp2))) = hp2" for hp2
    using Get_hit_again(1,2) [OF m] by simp
  show ?thesis
    using G m a v again Some Insert_cache by (intro exI [of _ a] exI [of _ ?db1]
        exI [of _ hp]) simp
qed

lemma ex_db_a_stored: "stored ex_db_a (HashText ''a'') [0x3F800000]"
  by (rule stored_Insert_new [OF Insert_a fresh_inv index_fresh])

lemma ex_db_a_cache: "cache ex_db_a = NewLRUCache 100"
  using ex_db_a_facts by (simp add: fresh_db_def)

lemma ex_db_got_eq:
  "Get ''a'' (ex_db_a, []) = (Inr 0, ex_db_got, [[0x3F800000]])"
  "cache ex_db_got = \<lparr>capacity = 100, lru = [(HashText ''a'', 0)]\<rparr>"
  "ex_db_got = ex_db_a\<lparr>cache := \<lparr>capacity = 100, lru = [(HashText ''a'', 0)]\<rparr>\<rparr>"
proof -
  have inv: "db_inv ex_db_a" using ex_db_a_facts by simp
  have n: "map_of (lru (cache ex_db_a)) (HashText ''a'') = None"
    by (simp add: ex_db_a_cache NewLRUCache_def)
  have P: "LRUCache_Put (HashText ''a'') 0 (cache ex_db_a)
             = \<lparr>capacity = 100, lru = [(HashText ''a'', 0)]\<rparr>"
    by (simp add: ex_db_a_cache NewLRUCache_def LRUCache_Put_def evict_def Let_def)
  from Get_miss [OF inv ex_db_a_stored n, of "[]"] P
  have G: "Get ''a'' (ex_db_a, [])
      = (Inr 0, ex_db_a\<lparr>cache := \<lparr>capacity = 100, lru = [(HashText ''a'', 0)]\<rparr>\<rparr>, [[0x3F800000]])"
    by simp
  then show e: "ex_db_got = ex_db_a\<lparr>cache := \<lparr>capacity = 100, lru = [(HashText ''a'', 0)]\<rparr>\<rparr>"
    by (simp add: ex_db_got_def)
  from G e show "Get ''a'' (ex_db_a, []) = (Inr 0, ex_db_got, [[0x3F800000]])" by simp
  show "cache ex_db_got = \<lparr>capacity = 100, lru = [(HashText ''a'', 0)]\<rparr>"
    unfolding e by simp
qed

theorem Get_returns_cached_array_witness:
  "db_inv ex_db_a \<and> stored ex_db_a (HashText ''a'') [0x3F800000] \<and> cache_ok ex_db_a []
   \<and> 1 \<le> capacity (cache ex_db_a)
   \<and> Get ''a'' (ex_db_a, []) = (Inr 0, ex_db_got, [[0x3F800000]])
   \<and> map_of (lru (cache ex_db_got)) (HashText ''a'') = Some 0
   \<and> (\<forall>hp2. fst (Get ''a'' (ex_db_got, hp2)) = Inr 0 \<and> snd (snd (Get ''a'' (ex_db_got, hp2))) = hp2)"
proof -
  have inv: "db_inv ex_db_a" using ex_db_a_facts by simp
  have ok: "cache_ok ex_db_a []"
    by (simp add: cache_ok_def ex_db_a_cache NewLRUCache_def)
  have cap: "1 \<le> capacity (cache ex_db_a)"
    by (simp add: ex_db_a_cache NewLRUCache_def)
  from Get_returns_cached_array [OF inv ex_db_a_stored ok cap]
  obtain a db1 hp1 where G: "Get ''a'' (ex_db_a, []) = (Inr a, db1, hp1)"
    and m: "map_of (lru (cache db1)) (HashText ''a'') = Some a"
    and again: "\<forall>hp2. fst (Get ''a'' (db1, hp2)) = Inr a \<and> snd (snd (Get ''a'' (db1, hp2))) = hp2"
    by blast
  from G ex_db_got_eq(1) have "a = 0" "db1 = ex_db_got" by simp_all
  with m again inv ex_db_a_stored ok cap ex_db_got_eq(1) show ?thesis by blast
qed

theorem Get_owned_copy_counterexample:
  "Get ''a'' (ex_db_a, []) = (Inr 0, ex_db_got, [[0x3F800000]])
   \<and> lru (cache ex_db_got) = [(HashText ''a'', 0)]
   \<and> Get ''a'' (ex_db_got, [[0x3F800000]][0 := [0x40000000]]) = (Inr 0, ex_db_got, [[0x40000000]])
   \<and> stored ex_db_got (HashText ''a'') [0x3F800000]
   \<and> [[0x40000000 :: float32]] ! 0 \<noteq> [0x3F800000]"
proof -
  have m: "map_of (lru (cache ex_db_got)) (HashText ''a'') = Some 0"
    by (simp add: ex_db_got_eq(2))
  have s: "ex_db_got\<lparr>cache := snd (LRUCache_Get (HashText ''a'') (cache ex_db_got))\<rparr> = ex_db_got"
    by (simp add: ex_db_got_eq(2) LRUCache_Get_def)
  have G2: "Get ''a'' (ex_db_got, [[0x3F800000]][0 := [0x40000000]]) = (Inr 0, ex_db_got, [[0x40000000]])"
    using Get_hit [OF m, of "[[0x3F800000]][0 := [0x40000000]]"] s by simp
  have st: "stored ex_db_got (HashText ''a'') [0x3F800000]"
    using ex_db_a_stored by (simp add: ex_db_got_eq(3) stored_def)
  from ex_db_got_eq(1,2) G2 st show ?thesis by simp
qed

section \<open>Similarity search on a store without records\<close>

text \<open>
  C2. \<open>FindSimilar\<close> starts its scan with no vector and the score \<open>-1\<close>, and after the scan
  compares that score with the threshold without asking whether a record was found. On a
  store that was just created (dimension 1, no record), with the query \<open>[1.0]\<close> and the
  threshold \<open>-1.0\<close>, and whatever the floating-point operations are, the scan visits
  nothing and \<open>FindSimilar\<close> succeeds with the nil vector and the score \<open>-1\<close>: it neither
  returns a stored vector nor fails with the not-found error.
\<close>

theorem FindSimilar_empty_store:
  "Open None 1 = Inr (fresh_db 1 100)
   \<and> range_order (index (fresh_db 1 100)) []
   \<and> int (length [0x3F800000 :: float32]) = uint (dimension (fresh_db 1 100))
   \<and> (\<forall>ops. FindSimilar ops [] [0x3F800000] 0xBF800000 (fresh_db 1 100) []
                = (Inr (None, 0xBF800000), []))"
proof -
  have o: "Open None 1 = Inr (fresh_db 1 100)"
    by (simp add: Open_def OpenWithOptions_fresh)
  have r: "range_order (index (fresh_db 1 100)) []"
    by (simp add: range_order_def fresh_db_def)
  have d: "int (length [0x3F800000 :: float32]) = uint (dimension (fresh_db 1 100))"
    by (simp add: fresh_db_def)
  have g: "f32_ge 0xBF800000 0xBF800000"
    by (simp add: f32_ge_def is_NaN_def)
  have "FindSimilar ops [] [0x3F800000] 0xBF800000 (fresh_db 1 100) []
                = (Inr (None, 0xBF800000), [])" for ops
    using d g by (simp add: FindSimilar_def)
  with o r d show ?thesis by blast
qed

end
